theory Spec2Isabelle
  imports Main "HOL-Library.Word"
begin

section \<open>Data model (core/Types.h, music/Score.h, FSM/States.h)\<close>

text \<open>
  The target is an Arduino board: \<open>uint8_t\<close>, \<open>uint16_t\<close> and \<open>uint32_t\<close> are words of
  8, 16 and 32 bits, and \<open>unsigned long\<close> (the type of \<open>micros()\<close> and of the fields of
  \<open>Delay\<close>) is 32 bits wide. Values of type \<open>size_t\<close> (lengths, capacities, counts and
  indices) are natural numbers: the builder increments \<open>length_\<close> only below \<open>capacity_\<close>,
  and the player increments its index only from 0 or from a value below the melody's
  \<open>count\<close>, so no increment wraps.

  A pointer to an array is an optional list: \<open>None\<close> is \<open>nullptr\<close>, \<open>Some xs\<close> points to
  storage holding the elements \<open>xs\<close>. An access through \<open>nullptr\<close> or outside the storage
  is undefined behaviour in C++; the model makes it a value of type \<open>fault\<close>.
\<close>

datatype fault = NullAccess | WriteOutOfBounds nat | ReadOutOfBounds nat

definition and_then :: "fault + 'a \<Rightarrow> ('a \<Rightarrow> fault + 'b) \<Rightarrow> fault + 'b" where
  "and_then r f = (case r of Inl e \<Rightarrow> Inl e | Inr x \<Rightarrow> f x)"

record Step =
  freqHz :: "16 word"
  durationMs :: "32 word"

record Melody =
  steps :: "Step list option"
  count :: nat

record MelodyContext =
  bpm :: "16 word"
  gapMs :: "16 word"

definition MelodyContext_default :: MelodyContext where
  "MelodyContext_default = \<lparr>bpm = 120, gapMs = 0\<rparr>"

definition MIN_PLAY_MS :: "16 word" where
  "MIN_PLAY_MS = 10"

record ScoreNote =
  hz :: "16 word"
  denom :: "8 word"

section \<open>MelodyBuilder (builder/MelodyBuilder.h and its implementation)\<close>

text \<open>
  The fields \<open>buffer_\<close>, \<open>capacity_\<close>, \<open>length_\<close>, \<open>ctx_\<close> and \<open>ok_\<close> of the class. Every
  method mutates the object and returns \<open>*this\<close>; the model takes the builder and returns
  the updated builder, so a chain \<open>b.f(x).g(y)\<close> is \<open>and_then (f x b) (g y)\<close>.
\<close>

record MelodyBuilder =
  buffer :: "Step list option"
  capacity :: nat
  len :: nat
  ctx :: MelodyContext
  ok :: bool

definition MelodyBuilder_new :: "Step list option \<Rightarrow> nat \<Rightarrow> MelodyBuilder" where
  "MelodyBuilder_new buf cap =
     \<lparr>buffer = buf, capacity = cap, len = 0, ctx = MelodyContext_default,
      ok = (buf \<noteq> None \<and> cap > 0)\<rparr>"

definition clearMelody :: "bool \<Rightarrow> MelodyBuilder \<Rightarrow> MelodyBuilder" where
  "clearMelody toDefault b =
     (let b1 = b\<lparr>len := 0\<rparr>;
          b2 = (if toDefault then b1\<lparr>ctx := MelodyContext_default\<rparr> else b1)
      in b2\<lparr>ok := (buffer b2 \<noteq> None \<and> capacity b2 > 0)\<rparr>)"

text \<open>\<open>setTempo(int bpm)\<close>: an accepted value lies in 1..300 and fits the 16-bit field.\<close>

definition setTempo :: "int \<Rightarrow> MelodyBuilder \<Rightarrow> MelodyBuilder" where
  "setTempo t b =
     (if t \<le> 0 \<or> t > 300 then b\<lparr>ok := False\<rparr>
      else b\<lparr>ctx := (ctx b)\<lparr>bpm := word_of_int t\<rparr>\<rparr>)"

definition gap :: "16 word \<Rightarrow> MelodyBuilder \<Rightarrow> MelodyBuilder" where
  "gap g b =
     (if g > 1000 then b\<lparr>ok := False\<rparr>
      else b\<lparr>ctx := (ctx b)\<lparr>gapMs := g\<rparr>\<rparr>)"

text \<open>
  \<open>pushStep_\<close>: the only place that writes the buffer. The write
  \<open>buffer_[length_++] = Step{hz, durationMs}\<close> is a fault when \<open>buffer_\<close> is null or has no
  slot at index \<open>length_\<close>.
\<close>

definition pushStep :: "16 word \<Rightarrow> 32 word \<Rightarrow> MelodyBuilder \<Rightarrow> fault + (bool \<times> MelodyBuilder)" where
  "pushStep h ms b =
     (if len b < capacity b then
        (case buffer b of
           None \<Rightarrow> Inl NullAccess
         | Some xs \<Rightarrow>
             if len b < length xs
             then Inr (True, b\<lparr>buffer := Some (xs[len b := \<lparr>freqHz = h, durationMs = ms\<rparr>]),
                                len := len b + 1\<rparr>)
             else Inl (WriteOutOfBounds (len b)))
      else Inr (False, b\<lparr>ok := False\<rparr>))"

text \<open>
  \<open>denomToMs_\<close>: returns the duration and, being a member function that may clear \<open>ok_\<close>,
  the updated builder. The product \<open>(uint32_t)bpm * (uint32_t)denom\<close> is a 32-bit one.
\<close>

definition denomToMs :: "8 word \<Rightarrow> 16 word \<Rightarrow> MelodyBuilder \<Rightarrow> 32 word \<times> MelodyBuilder" where
  "denomToMs dn bp b =
     (if dn = 0 \<or> bp = 0 then (0, b\<lparr>ok := False\<rparr>)
      else
        let numerator = (60000 * 4 :: 32 word);
            divisor = (ucast bp :: 32 word) * (ucast dn :: 32 word);
            noteMs = numerator div divisor
        in (if noteMs = 0 then 1 else noteMs, b))"

text \<open>
  The gap split inside \<open>addNote\<close> (the block between the declaration of \<open>playMs\<close> and
  \<open>restMs\<close> and the two pushes), as a function of the frequency, the context's gap and the
  converted duration; it returns \<open>(playMs, restMs)\<close>.
\<close>

definition addNote_split :: "16 word \<Rightarrow> 16 word \<Rightarrow> 32 word \<Rightarrow> 32 word \<times> 32 word" where
  "addNote_split h g ms =
     (let playMs = ms; restMs = 0 in
      if h > 0 \<and> g > 0 \<and> playMs > ucast MIN_PLAY_MS then
        let maxGap = playMs - ucast MIN_PLAY_MS;
            restMs = (if ucast g > maxGap then maxGap else ucast g)
        in (playMs - restMs, restMs)
      else (playMs, restMs))"

definition addNote :: "16 word \<Rightarrow> 8 word \<Rightarrow> MelodyBuilder \<Rightarrow> fault + MelodyBuilder" where
  "addNote h dn b =
     (case denomToMs dn (bpm (ctx b)) b of (ms, b1) \<Rightarrow>
        if ms = 0 then Inr (b1\<lparr>ok := False\<rparr>)
        else if h = 0 then and_then (pushStep h ms b1) (\<lambda>(_, b2). Inr b2)
        else
          (case addNote_split h (gapMs (ctx b1)) ms of (playMs, restMs) \<Rightarrow>
             and_then (pushStep h playMs b1) (\<lambda>(_, b2).
               if restMs > 0 then and_then (pushStep 0 restMs b2) (\<lambda>(_, b3). Inr b3)
               else Inr b2)))"

definition addRest :: "8 word \<Rightarrow> MelodyBuilder \<Rightarrow> fault + MelodyBuilder" where
  "addRest dn b =
     (case denomToMs dn (bpm (ctx b)) b of (ms, b1) \<Rightarrow>
        and_then (pushStep 0 ms b1) (\<lambda>(_, b2). Inr b2))"

definition addToneMs :: "16 word \<Rightarrow> 32 word \<Rightarrow> MelodyBuilder \<Rightarrow> fault + MelodyBuilder" where
  "addToneMs h ms b = and_then (pushStep h ms b) (\<lambda>(_, b2). Inr b2)"

definition addRestMs :: "32 word \<Rightarrow> MelodyBuilder \<Rightarrow> fault + MelodyBuilder" where
  "addRestMs ms b = and_then (pushStep 0 ms b) (\<lambda>(_, b2). Inr b2)"

text \<open>
  \<open>avr_algorithms::for_each_indexed(buffer, buffer_size, func)\<close>, the pointer and count
  overload: \<open>func(buffer[i], i)\<close> for \<open>i\<close> from 0 below \<open>buffer_size\<close>, the count being
  passed by value. The callable receives the index and reads the element itself, when it
  uses it. \<open>for_each_indexed_from i n\<close> is the loop with \<open>n\<close> iterations left at index \<open>i\<close>.
\<close>

fun for_each_indexed_from ::
  "nat \<Rightarrow> nat \<Rightarrow> (nat \<Rightarrow> 's \<Rightarrow> fault + 's) \<Rightarrow> 's \<Rightarrow> fault + 's" where
  "for_each_indexed_from i 0 func s = Inr s"
| "for_each_indexed_from i (Suc n) func s =
     and_then (func i s) (for_each_indexed_from (Suc i) n func)"

definition for_each_indexed :: "nat \<Rightarrow> (nat \<Rightarrow> 's \<Rightarrow> fault + 's) \<Rightarrow> 's \<Rightarrow> fault + 's" where
  "for_each_indexed buffer_size func s = for_each_indexed_from 0 buffer_size func s"

definition read_at :: "'a list \<Rightarrow> nat \<Rightarrow> fault + 'a" where
  "read_at xs i = (if i < length xs then Inr (xs ! i) else Inl (ReadOutOfBounds i))"

text \<open>\<open>appendScore(const score::ScoreNote* score, size_t count)\<close>.\<close>

definition appendScore :: "ScoreNote list option \<Rightarrow> nat \<Rightarrow> MelodyBuilder \<Rightarrow> fault + MelodyBuilder" where
  "appendScore score n b =
     (case score of
        None \<Rightarrow> if n > 0 then Inr (b\<lparr>ok := False\<rparr>) else Inr b
      | Some notes \<Rightarrow>
          for_each_indexed n
            (\<lambda>index b'.
               if ok b' then and_then (read_at notes index) (\<lambda>note. addNote (hz note) (denom note) b')
               else Inr b') b)"

text \<open>
  \<open>appendScore(Reader&& reader, size_t count)\<close>, the template in the header: the loop runs
  over \<open>buffer_\<close> and \<open>length_\<close>, and the body does not use the element \<open>step\<close>.
\<close>

definition appendScoreReader :: "(nat \<Rightarrow> ScoreNote) \<Rightarrow> nat \<Rightarrow> MelodyBuilder \<Rightarrow> fault + MelodyBuilder" where
  "appendScoreReader reader n b =
     for_each_indexed (len b)
       (\<lambda>index b'.
          if ok b' then (let note = reader index in addNote (hz note) (denom note) b')
          else Inr b') b"

definition build :: "MelodyBuilder \<Rightarrow> Melody" where
  "build b = \<lparr>steps = buffer b, count = len b\<rparr>"

text \<open>
  A sequence of calls on one builder, as the fluent interface chains them (\<open>compose(func)\<close>
  runs the calls of \<open>func\<close> on the same builder and adds nothing of its own). The overload
  \<open>appendScore(score::ScoreView view)\<close> calls the array overload with \<open>view.data\<close> and
  \<open>view.count\<close>, so its effect on the builder is that of the array overload; its body has
  no \<open>return\<close> statement, and the reference it returns is not modelled.
\<close>

datatype builder_call =
    ClearMelody bool
  | SetTempo int
  | Gap "16 word"
  | AddNote "16 word" "8 word"
  | AddRest "8 word"
  | AddToneMs "16 word" "32 word"
  | AddRestMs "32 word"
  | AppendScore "ScoreNote list option" nat
  | AppendScoreReader "nat \<Rightarrow> ScoreNote" nat

fun builder_step :: "builder_call \<Rightarrow> MelodyBuilder \<Rightarrow> fault + MelodyBuilder" where
  "builder_step (ClearMelody toDefault) b = Inr (clearMelody toDefault b)"
| "builder_step (SetTempo t) b = Inr (setTempo t b)"
| "builder_step (Gap g) b = Inr (gap g b)"
| "builder_step (AddNote h dn) b = addNote h dn b"
| "builder_step (AddRest dn) b = addRest dn b"
| "builder_step (AddToneMs h ms) b = addToneMs h ms b"
| "builder_step (AddRestMs ms) b = addRestMs ms b"
| "builder_step (AppendScore score n) b = appendScore score n b"
| "builder_step (AppendScoreReader reader n) b = appendScoreReader reader n b"

fun builder_run :: "builder_call list \<Rightarrow> MelodyBuilder \<Rightarrow> fault + MelodyBuilder" where
  "builder_run [] b = Inr b"
| "builder_run (c # cs) b = and_then (builder_step c b) (builder_run cs)"

section \<open>Delay (Timer/Delay.h and its implementation)\<close>

text \<open>
  \<open>micros()\<close> is an input: a function that calls it takes the value it returns as an
  argument, one argument for each call it can make.
\<close>

record Delay =
  delayTime :: "32 word"
  previousTime :: "32 word"
  disarm :: bool

definition Delay_new :: "32 word \<Rightarrow> Delay" where
  "Delay_new t = \<lparr>delayTime = t, previousTime = 0, disarm = False\<rparr>"

text \<open>\<open>init()\<close> and \<open>init(unsigned long delayTime)\<close>; \<open>now\<close> is the value of \<open>micros()\<close>.\<close>

definition init_keep :: "32 word \<Rightarrow> Delay \<Rightarrow> Delay" where
  "init_keep now d = d\<lparr>disarm := False, delayTime := delayTime d, previousTime := now\<rparr>"

definition init :: "32 word \<Rightarrow> 32 word \<Rightarrow> Delay \<Rightarrow> Delay" where
  "init t now d = d\<lparr>disarm := False, delayTime := t, previousTime := now\<rparr>"

definition restartTimer :: "32 word \<Rightarrow> Delay \<Rightarrow> Delay" where
  "restartTimer now d = d\<lparr>previousTime := now\<rparr>"

text \<open>
  \<open>isDelayTimeElapsed()\<close>: \<open>now\<close> is the value of \<open>micros()\<close> read on entry, \<open>now'\<close> the one
  read by \<open>restartTimer()\<close> when the delay has elapsed. The subtraction is the unsigned
  32-bit one.
\<close>

definition isDelayTimeElapsed :: "32 word \<Rightarrow> 32 word \<Rightarrow> Delay \<Rightarrow> bool \<times> Delay" where
  "isDelayTimeElapsed now now' d =
     (if \<not> disarm d then
        (if now - previousTime d \<ge> delayTime d then (True, restartTimer now' d)
         else (False, d))
      else (False, d))"

definition stopDelay :: "Delay \<Rightarrow> Delay" where
  "stopDelay d = d\<lparr>disarm := True\<rparr>"

definition updateDelayTime :: "32 word \<Rightarrow> Delay \<Rightarrow> Delay" where
  "updateDelayTime t d = d\<lparr>delayTime := t\<rparr>"

section \<open>BuzzerPlayer (player/BuzzerPlayer.h and its implementation)\<close>

datatype State = IDLE | START_STEP | PLAYING_STEP | ADVANCE_STEP

text \<open>
  The player drives an \<open>IBuzzerBackend\<close> through \<open>start(frequencyHz)\<close> and \<open>stop()\<close>. The
  backend is the list of the calls it has received, the latest last.
\<close>

datatype backend_call = Start "16 word" | Stop

record BuzzerPlayer =
  hwBackend :: "backend_call list"
  melody :: "Melody option"
  melodyStepIdx :: nat
  looping :: bool
  stepDelay :: Delay
  state :: State

text \<open>The constructor; \<open>now\<close> is the value of \<open>micros()\<close> read by \<open>stepDelay_.init()\<close>.\<close>

definition BuzzerPlayer_new :: "backend_call list \<Rightarrow> 32 word \<Rightarrow> BuzzerPlayer" where
  "BuzzerPlayer_new hw now =
     \<lparr>hwBackend = hw, melody = None, melodyStepIdx = 0, looping = False,
      stepDelay = init_keep now (Delay_new 0), state = IDLE\<rparr>"

definition stop :: "BuzzerPlayer \<Rightarrow> BuzzerPlayer" where
  "stop p =
     p\<lparr>hwBackend := hwBackend p @ [Stop],
       melody := None,
       looping := False,
       melodyStepIdx := 0,
       state := IDLE,
       stepDelay := stopDelay (stepDelay p)\<rparr>"

definition isPlaying :: "BuzzerPlayer \<Rightarrow> bool" where
  "isPlaying p = (state p \<noteq> IDLE)"

text \<open>\<open>play(const Melody& melody, bool loop)\<close>: the argument is a reference, so never null.\<close>

definition play :: "Melody \<Rightarrow> bool \<Rightarrow> BuzzerPlayer \<Rightarrow> BuzzerPlayer" where
  "play m loop p =
     (let p1 = (if isPlaying p then stop p else p)
      in p1\<lparr>melody := Some m, looping := loop, melodyStepIdx := 0, state := START_STEP\<rparr>)"

text \<open>\<open>getCurrentStep()\<close>: \<open>melody_->steps[melodyStepIdx_]\<close>, with no check of its own.\<close>

definition getCurrentStep :: "BuzzerPlayer \<Rightarrow> fault + Step" where
  "getCurrentStep p =
     (case melody p of
        None \<Rightarrow> Inl NullAccess
      | Some m \<Rightarrow>
          (case steps m of
             None \<Rightarrow> Inl NullAccess
           | Some xs \<Rightarrow> read_at xs (melodyStepIdx p)))"

definition advanceToNextStep :: "BuzzerPlayer \<Rightarrow> BuzzerPlayer" where
  "advanceToNextStep p =
     (let p1 = p\<lparr>melodyStepIdx := melodyStepIdx p + 1\<rparr> in
      case melody p1 of
        Some m \<Rightarrow>
          if melodyStepIdx p1 \<ge> count m then
            (if looping p1 then p1\<lparr>melodyStepIdx := 0, state := START_STEP\<rparr>
             else stop p1)
          else p1\<lparr>state := START_STEP\<rparr>
      | None \<Rightarrow> p1\<lparr>state := START_STEP\<rparr>)"

text \<open>
  \<open>update()\<close>: \<open>now\<close> and \<open>now'\<close> are the values of the first and the second call of
  \<open>micros()\<close> the poll makes. In \<open>PLAYING_STEP\<close> the \<open>if\<close> has no braces: the log
  statement after it runs at every poll and reads the current step. The product
  \<open>mStep.durationMs * 1000UL\<close> is a 32-bit one.
\<close>

definition update :: "32 word \<Rightarrow> 32 word \<Rightarrow> BuzzerPlayer \<Rightarrow> fault + BuzzerPlayer" where
  "update now now' p =
     (case state p of
        IDLE \<Rightarrow> Inr p
      | START_STEP \<Rightarrow>
          and_then (getCurrentStep p) (\<lambda>mStep.
            let hw = (if freqHz mStep > 0 then hwBackend p @ [Start (freqHz mStep)]
                      else hwBackend p @ [Stop])
            in Inr (p\<lparr>hwBackend := hw,
                      stepDelay := init (durationMs mStep * 1000) now (stepDelay p),
                      state := PLAYING_STEP\<rparr>))
      | PLAYING_STEP \<Rightarrow>
          (case isDelayTimeElapsed now now' (stepDelay p) of (elapsed, d) \<Rightarrow>
             let p1 = p\<lparr>stepDelay := d\<rparr>;
                 p2 = (if elapsed then p1\<lparr>state := ADVANCE_STEP\<rparr> else p1)
             in and_then (getCurrentStep p2) (\<lambda>_. Inr p2))
      | ADVANCE_STEP \<Rightarrow> Inr (advanceToNextStep p))"

text \<open>A sequence of calls on one player.\<close>

datatype player_call = Play Melody bool | StopCall | Update "32 word" "32 word"

fun player_step :: "player_call \<Rightarrow> BuzzerPlayer \<Rightarrow> fault + BuzzerPlayer" where
  "player_step (Play m loop) p = Inr (play m loop p)"
| "player_step StopCall p = Inr (stop p)"
| "player_step (Update now now') p = update now now' p"

fun player_run :: "player_call list \<Rightarrow> BuzzerPlayer \<Rightarrow> fault + BuzzerPlayer" where
  "player_run [] p = Inr p"
| "player_run (c # cs) p = and_then (player_step c p) (player_run cs)"

section \<open>Properties stated over the model\<close>

text \<open>
  \<open>within_capacity C b\<close>: the builder \<open>b\<close> has capacity \<open>C\<close>, a buffer with exactly \<open>C\<close>
  slots and a length of at most \<open>C\<close>. \<open>no_bad_write C r\<close>: the outcome \<open>r\<close> of builder
  calls is such a builder, or the calls stopped at a read outside a score array; it is
  neither a write outside the buffer nor an access through a null pointer.
\<close>

definition within_capacity :: "nat \<Rightarrow> MelodyBuilder \<Rightarrow> bool" where
  "within_capacity C b =
     (capacity b = C \<and> len b \<le> C \<and>
      (case buffer b of None \<Rightarrow> False | Some xs \<Rightarrow> length xs = C))"

fun no_bad_write :: "nat \<Rightarrow> fault + MelodyBuilder \<Rightarrow> bool" where
  "no_bad_write C (Inr b) = within_capacity C b"
| "no_bad_write C (Inl (ReadOutOfBounds i)) = True"
| "no_bad_write C (Inl (WriteOutOfBounds i)) = False"
| "no_bad_write C (Inl NullAccess) = False"

section \<open>Duration conversion\<close>

lemma unat_ucast_16_32: "unat (ucast (w :: 16 word) :: 32 word) = unat w"
proof -
  have "uint (ucast w :: 32 word) = uint w"
    by (rule uint_up_ucast) (simp add: is_up)
  then show ?thesis unfolding unat_eq_nat_uint by (rule arg_cong)
qed

lemma unat_ucast_8_32: "unat (ucast (w :: 8 word) :: 32 word) = unat w"
proof -
  have "uint (ucast w :: 32 word) = uint w"
    by (rule uint_up_ucast) (simp add: is_up)
  then show ?thesis unfolding unat_eq_nat_uint by (rule arg_cong)
qed

lemma unat_divisor:
  "unat ((ucast (bp :: 16 word) :: 32 word) * (ucast (dn :: 8 word) :: 32 word)) = unat bp * unat dn"
proof -
  have dn: "unat dn < 256" using unsigned_less [of dn, where 'a=nat] by simp
  have bp: "unat bp < 65536" using unsigned_less [of bp, where 'a=nat] by simp
  have "unat bp * unat dn \<le> 65535 * 255" using dn bp by (intro mult_mono) auto
  then have "unat (ucast bp :: 32 word) * unat (ucast dn :: 32 word) < 2 ^ LENGTH(32)"
    by (simp add: unat_ucast_16_32 unat_ucast_8_32)
  then show ?thesis
    by (simp add: unat_mult_lem [THEN iffD1] unat_ucast_16_32 unat_ucast_8_32)
qed

lemma denomToMs_value:
  assumes "dn \<noteq> 0" and "bp \<noteq> 0"
  shows "unat (fst (denomToMs dn bp b)) = max 1 (240000 div (unat bp * unat dn))"
proof -
  let ?q = "(240000 :: 32 word) div ((ucast bp :: 32 word) * (ucast dn :: 32 word))"
  have q: "unat ?q = 240000 div (unat bp * unat dn)"
    by (simp add: unat_div unat_divisor)
  show ?thesis
  proof (cases "?q = 0")
    case True
    with q have "240000 div (unat bp * unat dn) = 0" by simp
    with True assms show ?thesis by (simp add: denomToMs_def)
  next
    case False
    then have "0 < unat ?q" by (simp add: unat_gt_0)
    with q have "1 \<le> 240000 div (unat bp * unat dn)" by simp
    with False assms q show ?thesis by (simp add: denomToMs_def Let_def max_def)
  qed
qed

lemma denomToMs_keeps_builder: "dn \<noteq> 0 \<Longrightarrow> bp \<noteq> 0 \<Longrightarrow> snd (denomToMs dn bp b) = b"
  by (simp add: denomToMs_def Let_def)

lemma denomToMs_zero_input:
  "dn = 0 \<or> bp = 0 \<Longrightarrow> denomToMs dn bp b = (0, b\<lparr>ok := False\<rparr>)"
  by (simp add: denomToMs_def)

lemma addNote_zero_input:
  "dn = 0 \<or> bpm (ctx b) = 0 \<Longrightarrow> addNote h dn b = Inr (b\<lparr>ok := False\<rparr>)"
  by (simp add: addNote_def denomToMs_zero_input)

text \<open>
  Claim C3. For a notated duration and a tempo that are both at least 1, the conversion
  returns \<open>max 1 (240000 div (bpm * denom))\<close> milliseconds and leaves the builder as it
  is; a quarter, a half and a whole note at 120 bpm last 500, 1000 and 2000 ms. For a
  notated duration or a tempo of 0 it returns 0 and marks the builder invalid, and
  \<open>addNote\<close> then pushes no step.
\<close>

theorem denomToMs_formula:
  "(dn \<noteq> 0 \<and> bp \<noteq> 0 \<longrightarrow>
      unat (fst (denomToMs dn bp b)) = max 1 (240000 div (unat bp * unat dn))
      \<and> snd (denomToMs dn bp b) = b)
   \<and> fst (denomToMs 4 120 b) = 500
   \<and> fst (denomToMs 2 120 b) = 1000
   \<and> fst (denomToMs 1 120 b) = 2000
   \<and> (dn = 0 \<or> bp = 0 \<longrightarrow>
        fst (denomToMs dn bp b) = 0 \<and> \<not> ok (snd (denomToMs dn bp b)))
   \<and> (dn = 0 \<or> bpm (ctx b) = 0 \<longrightarrow> addNote h dn b = Inr (b\<lparr>ok := False\<rparr>))"
proof (intro conjI impI)
  show "fst (denomToMs 4 120 b) = 500" by (simp add: denomToMs_def)
  show "fst (denomToMs 2 120 b) = 1000" by (simp add: denomToMs_def)
  show "fst (denomToMs 1 120 b) = 2000" by (simp add: denomToMs_def)
next
  assume "dn \<noteq> 0 \<and> bp \<noteq> 0"
  then show "unat (fst (denomToMs dn bp b)) = max 1 (240000 div (unat bp * unat dn))"
    by (simp add: denomToMs_value)
next
  assume "dn \<noteq> 0 \<and> bp \<noteq> 0"
  then show "snd (denomToMs dn bp b) = b" by (simp add: denomToMs_keeps_builder)
next
  assume z: "dn = 0 \<or> bp = 0"
  show "fst (denomToMs dn bp b) = 0" by (simp add: denomToMs_zero_input [OF z])
  show "\<not> ok (snd (denomToMs dn bp b))" by (simp add: denomToMs_zero_input [OF z])
next
  assume "dn = 0 \<or> bpm (ctx b) = 0"
  then show "addNote h dn b = Inr (b\<lparr>ok := False\<rparr>)" by (rule addNote_zero_input)
qed

text \<open>An eighth note at 76 bpm lasts 394 ms; a notated duration of 0 invalidates.\<close>

theorem denomToMs_formula_witness:
  "unat (fst (denomToMs 8 76 (MelodyBuilder_new (Some []) 1))) = 394
   \<and> snd (denomToMs 8 76 (MelodyBuilder_new (Some []) 1)) = MelodyBuilder_new (Some []) 1
   \<and> ok (MelodyBuilder_new (Some []) 1)
   \<and> fst (denomToMs 0 76 (MelodyBuilder_new (Some []) 1)) = 0
   \<and> \<not> ok (snd (denomToMs 0 76 (MelodyBuilder_new (Some []) 1)))
   \<and> addNote 440 0 (MelodyBuilder_new (Some []) 1) = Inr ((MelodyBuilder_new (Some []) 1)\<lparr>ok := False\<rparr>)"
  using denomToMs_formula [of 8 76 "MelodyBuilder_new (Some []) 1" 440]
        denomToMs_formula [of 0 76 "MelodyBuilder_new (Some []) 1" 440]
  by (simp add: MelodyBuilder_new_def)

lemma denomToMs_le_iff:
  assumes "dn \<noteq> 0" "bp \<noteq> 0" "dn' \<noteq> 0" "bp' \<noteq> 0"
  shows "fst (denomToMs dn' bp' b) \<le> fst (denomToMs dn bp b)
     \<longleftrightarrow> max 1 (240000 div (unat bp' * unat dn')) \<le> max (1::nat) (240000 div (unat bp * unat dn))"
  using assms by (simp add: word_le_nat_alt denomToMs_value)

lemma div_antitone: "0 < (m::nat) \<Longrightarrow> m \<le> n \<Longrightarrow> max 1 (k div n) \<le> max 1 (k div m)"
  using div_le_mono2 [of m n k] by (simp add: max_def)

text \<open>
  Claim C9. For tempos between 1 and 300 and the notated durations 1, 2, 4, 8, 16 and 32,
  the conversion does not grow when the notated duration grows, does not grow when the
  tempo grows, and is at least 1.
\<close>

theorem denomToMs_antitone:
  assumes "1 \<le> bp" "bp \<le> 300" "1 \<le> bp'" "bp' \<le> 300"
    and "dn \<in> {1, 2, 4, 8, 16, 32}" "dn' \<in> {1, 2, 4, 8, 16, 32}"
  shows "(dn \<le> dn' \<longrightarrow> fst (denomToMs dn' bp b) \<le> fst (denomToMs dn bp b))
       \<and> (bp \<le> bp' \<longrightarrow> fst (denomToMs dn bp' b) \<le> fst (denomToMs dn bp b))
       \<and> 1 \<le> fst (denomToMs dn bp b)"
proof -
  have nz: "dn \<noteq> 0" "dn' \<noteq> 0" using assms(5,6) by auto
  have bnz: "bp \<noteq> 0" "bp' \<noteq> 0" using assms(1,3) by auto
  have pos: "0 < unat bp" "0 < unat dn" using nz bnz by (simp_all add: unat_gt_0)
  have a: "fst (denomToMs dn' bp b) \<le> fst (denomToMs dn bp b)" if "dn \<le> dn'"
  proof -
    from that have "unat bp * unat dn \<le> unat bp * unat dn'" by (simp add: word_le_nat_alt)
    moreover from pos have "0 < unat bp * unat dn" by simp
    ultimately have "max 1 (240000 div (unat bp * unat dn')) \<le> max (1::nat) (240000 div (unat bp * unat dn))"
      by (intro div_antitone)
    then show ?thesis
      using denomToMs_le_iff [of dn bp dn' bp b] nz bnz by blast
  qed
  have c: "fst (denomToMs dn bp' b) \<le> fst (denomToMs dn bp b)" if "bp \<le> bp'"
  proof -
    from that have "unat bp * unat dn \<le> unat bp' * unat dn" by (simp add: word_le_nat_alt)
    moreover from pos have "0 < unat bp * unat dn" by simp
    ultimately have "max 1 (240000 div (unat bp' * unat dn)) \<le> max (1::nat) (240000 div (unat bp * unat dn))"
      by (intro div_antitone)
    then show ?thesis
      using denomToMs_le_iff [of dn bp dn bp' b] nz bnz by blast
  qed
  have "1 \<le> unat (fst (denomToMs dn bp b))" by (simp add: denomToMs_value nz bnz)
  then have d: "1 \<le> fst (denomToMs dn bp b)" by (simp add: word_le_nat_alt)
  from a c d show ?thesis by blast
qed

text \<open>A quarter and an eighth note at 120 bpm, and a quarter note at 120 and 300 bpm.\<close>

theorem denomToMs_antitone_witness:
  "fst (denomToMs 8 120 (MelodyBuilder_new (Some []) 1)) \<le> fst (denomToMs 4 120 (MelodyBuilder_new (Some []) 1))
   \<and> fst (denomToMs 4 300 (MelodyBuilder_new (Some []) 1)) \<le> fst (denomToMs 4 120 (MelodyBuilder_new (Some []) 1))
   \<and> 1 \<le> fst (denomToMs 4 120 (MelodyBuilder_new (Some []) 1))
   \<and> (1::16 word) \<le> 120 \<and> (120::16 word) \<le> 300 \<and> (1::16 word) \<le> 300 \<and> (300::16 word) \<le> 300
   \<and> (4::8 word) \<in> {1, 2, 4, 8, 16, 32} \<and> (8::8 word) \<in> {1, 2, 4, 8, 16, 32}
   \<and> (4::8 word) \<le> 8"
  using denomToMs_antitone [of 120 300 4 8 "MelodyBuilder_new (Some []) 1"]
  by simp

section \<open>The gap split of addNote\<close>

lemma ucast_MIN_PLAY_MS: "(ucast MIN_PLAY_MS :: 32 word) = 10"
  by (simp add: MIN_PLAY_MS_def)

lemma addNote_split_no_gap:
  "\<not> (0 < g \<and> 10 < D) \<Longrightarrow> addNote_split h g D = (D, 0)"
  by (auto simp add: addNote_split_def ucast_MIN_PLAY_MS)

lemma addNote_split_gap:
  assumes "h \<noteq> 0" "0 < g" "10 < D"
  shows "addNote_split h g D =
           (D - (if D - 10 < ucast g then D - 10 else ucast g),
            if D - 10 < ucast g then D - 10 else ucast g)"
  using assms by (simp add: addNote_split_def ucast_MIN_PLAY_MS word_neq_0_conv Let_def)

lemma addNote_split_nat:
  assumes "h \<noteq> 0" and "addNote_split h g D = (P, R)"
  shows "(0 < g \<and> 10 < D \<longrightarrow> unat R = min (unat g) (unat D - 10) \<and> unat P = unat D - unat R)
       \<and> (\<not> (0 < g \<and> 10 < D) \<longrightarrow> R = 0 \<and> P = D)
       \<and> unat P + unat R = unat D
       \<and> (10 \<le> D \<longrightarrow> 10 \<le> P)"
proof (cases "0 < g \<and> 10 < D")
  case False
  with assms(2) have "P = D" "R = 0" by (simp_all add: addNote_split_no_gap)
  with False show ?thesis by auto
next
  case True
  then have D10: "10 < unat D" by (simp add: word_less_nat_alt)
  then have sub: "unat (D - 10) = unat D - 10"
    by (subst unat_sub) (simp_all add: word_le_nat_alt)
  have g: "unat (ucast g :: 32 word) = unat g" by (rule unat_ucast_16_32)
  let ?R = "if D - 10 < ucast g then D - 10 else (ucast g :: 32 word)"
  have "addNote_split h g D = (D - ?R, ?R)"
    using assms(1) True by (intro addNote_split_gap) blast+
  then have "(P, R) = (D - ?R, ?R)"
    unfolding assms(2) .
  then have R: "R = ?R" and P: "P = D - ?R" by blast+
  have uR: "unat ?R = min (unat g) (unat D - 10)"
    by (simp add: word_less_nat_alt sub g min_def)
  then have "unat ?R \<le> unat D" using D10 by simp
  then have "?R \<le> D" by (simp only: word_le_nat_alt)
  then have uP: "unat (D - ?R) = unat D - unat ?R" by (rule unat_sub)
  have "10 \<le> unat (D - ?R)" unfolding uP uR using D10 by simp
  then have "10 \<le> D - ?R" by (simp add: word_le_nat_alt)
  moreover have "unat (D - ?R) + unat ?R = unat D" unfolding uP using \<open>unat ?R \<le> unat D\<close> by simp
  ultimately show ?thesis using True uR uP unfolding R P by simp
qed

lemma pushStep_room:
  assumes "buffer b = Some xs" "len b < capacity b" "capacity b \<le> length xs"
  shows "pushStep h ms b =
           Inr (True, b\<lparr>buffer := Some (xs[len b := \<lparr>freqHz = h, durationMs = ms\<rparr>]),
                       len := len b + 1\<rparr>)"
  using assms by (simp add: pushStep_def)

lemma pushStep_full:
  "\<not> len b < capacity b \<Longrightarrow> pushStep h ms b = Inr (False, b\<lparr>ok := False\<rparr>)"
  by (simp add: pushStep_def)

lemma addToneMs_room:
  assumes "buffer b = Some xs" "len b < capacity b" "capacity b \<le> length xs"
  shows "addToneMs h ms b =
           Inr (b\<lparr>buffer := Some (xs[len b := \<lparr>freqHz = h, durationMs = ms\<rparr>]),
                 len := len b + 1\<rparr>)"
  by (simp add: addToneMs_def pushStep_room [OF assms] and_then_def)

lemma addRestMs_is_addToneMs: "addRestMs ms b = addToneMs 0 ms b"
  by (simp add: addRestMs_def addToneMs_def)

lemma addNote_pushes:
  assumes "h \<noteq> 0" and "fst (denomToMs dn (bpm (ctx b)) b) = D" and "D \<noteq> 0"
    and "addNote_split h (gapMs (ctx b)) D = (P, R)"
  shows "addNote h dn b =
           and_then (addToneMs h P b) (\<lambda>b2. if 0 < R then addRestMs R b2 else Inr b2)"
proof -
  from assms(2,3) have nz: "\<not> (dn = 0 \<or> bpm (ctx b) = 0)"
    by (auto simp add: denomToMs_def)
  then have "denomToMs dn (bpm (ctx b)) b = (D, b)"
    using assms(2) by (simp add: denomToMs_def Let_def)
  then show ?thesis
    using assms(1,3,4)
    by (simp add: addNote_def addToneMs_def addRestMs_def and_then_def
             split: sum.splits prod.splits)
qed

text \<open>
  Claim C2. For \<open>addNote\<close> with a frequency above 0, converted duration \<open>D\<close> and
  configured gap \<open>G\<close>, writing \<open>(P, R)\<close> for the play and rest durations the code computes:
  if \<open>G > 0\<close> and \<open>D > MIN_PLAY_MS\<close> then \<open>R = min G (D - MIN_PLAY_MS)\<close> and
  \<open>P = D - R\<close>; in all cases \<open>P + R = D\<close>, and \<open>P \<ge> MIN_PLAY_MS\<close> whenever
  \<open>D \<ge> MIN_PLAY_MS\<close>. When the conversion succeeds (\<open>D \<noteq> 0\<close>), the call pushes a tone
  step of \<open>P\<close> and then, exactly when \<open>R > 0\<close>, a silence step of \<open>R\<close>; with two free
  slots the buffer receives exactly these steps.
\<close>

theorem addNote_gap_split:
  assumes "h \<noteq> 0"
    and "fst (denomToMs dn (bpm (ctx b)) b) = D"
    and "gapMs (ctx b) = G"
    and "addNote_split h G D = (P, R)"
  shows "(0 < G \<and> ucast MIN_PLAY_MS < D \<longrightarrow>
            unat R = min (unat G) (unat D - unat MIN_PLAY_MS) \<and> unat P = unat D - unat R)
       \<and> unat P + unat R = unat D
       \<and> (ucast MIN_PLAY_MS \<le> D \<longrightarrow> ucast MIN_PLAY_MS \<le> P)
       \<and> (D \<noteq> 0 \<longrightarrow>
            addNote h dn b =
              and_then (addToneMs h P b) (\<lambda>b2. if 0 < R then addRestMs R b2 else Inr b2))
       \<and> (D \<noteq> 0 \<and> buffer b = Some xs \<and> len b + 2 \<le> capacity b \<and> capacity b \<le> length xs \<longrightarrow>
            addNote h dn b =
              Inr (if 0 < R
                   then b\<lparr>buffer := Some (xs[len b := \<lparr>freqHz = h, durationMs = P\<rparr>,
                                              len b + 1 := \<lparr>freqHz = 0, durationMs = R\<rparr>]),
                          len := len b + 2\<rparr>
                   else b\<lparr>buffer := Some (xs[len b := \<lparr>freqHz = h, durationMs = P\<rparr>]),
                          len := len b + 1\<rparr>))"
proof -
  note split = addNote_split_nat [OF assms(1,4)]
  have min10: "unat MIN_PLAY_MS = 10" by (simp add: MIN_PLAY_MS_def)
  have pushes: "addNote h dn b =
      and_then (addToneMs h P b) (\<lambda>b2. if 0 < R then addRestMs R b2 else Inr b2)" if "D \<noteq> 0"
    using addNote_pushes [OF assms(1,2) that] assms(3,4) by simp
  have room: "addNote h dn b =
      Inr (if 0 < R
           then b\<lparr>buffer := Some (xs[len b := \<lparr>freqHz = h, durationMs = P\<rparr>,
                                      len b + 1 := \<lparr>freqHz = 0, durationMs = R\<rparr>]),
                  len := len b + 2\<rparr>
           else b\<lparr>buffer := Some (xs[len b := \<lparr>freqHz = h, durationMs = P\<rparr>]),
                  len := len b + 1\<rparr>)"
    if "D \<noteq> 0" and buf: "buffer b = Some xs" and cap: "len b + 2 \<le> capacity b"
      and sz: "capacity b \<le> length xs"
  proof -
    let ?b1 = "b\<lparr>buffer := Some (xs[len b := \<lparr>freqHz = h, durationMs = P\<rparr>]), len := len b + 1\<rparr>"
    have first: "addToneMs h P b = Inr ?b1"
      using buf cap sz by (intro addToneMs_room) simp_all
    have second: "addRestMs R ?b1 =
        Inr (?b1\<lparr>buffer := Some ((xs[len b := \<lparr>freqHz = h, durationMs = P\<rparr>])
                                 [len ?b1 := \<lparr>freqHz = 0, durationMs = R\<rparr>]),
                  len := len ?b1 + 1\<rparr>)"
      unfolding addRestMs_is_addToneMs using cap sz by (intro addToneMs_room) simp_all
    show ?thesis
      unfolding pushes [OF that(1)] first using second by (simp add: and_then_def)
  qed
  from split pushes room show ?thesis
    by (simp add: ucast_MIN_PLAY_MS min10)
qed

text \<open>
  The example \<open>setTempo(76).gap(15).addNote(784, 4)\<close>: 789 ms split into 774 ms of tone
  and 15 ms of silence.
\<close>

theorem addNote_gap_split_witness:
  "(784 :: 16 word) \<noteq> 0
   \<and> fst (denomToMs 4 (bpm (ctx (gap 15 (setTempo 76 (MelodyBuilder_new (Some [\<lparr>freqHz = 0, durationMs = 0\<rparr>, \<lparr>freqHz = 0, durationMs = 0\<rparr>]) 2)))))
          (gap 15 (setTempo 76 (MelodyBuilder_new (Some [\<lparr>freqHz = 0, durationMs = 0\<rparr>, \<lparr>freqHz = 0, durationMs = 0\<rparr>]) 2)))) = 789
   \<and> gapMs (ctx (gap 15 (setTempo 76 (MelodyBuilder_new (Some [\<lparr>freqHz = 0, durationMs = 0\<rparr>, \<lparr>freqHz = 0, durationMs = 0\<rparr>]) 2)))) = 15
   \<and> addNote_split 784 15 789 = (774, 15)
   \<and> (0 :: 16 word) < 15 \<and> ucast MIN_PLAY_MS < (789 :: 32 word)
   \<and> unat (15 :: 32 word) = min (unat (15 :: 16 word)) (unat (789 :: 32 word) - unat MIN_PLAY_MS)
   \<and> unat (774 :: 32 word) + unat (15 :: 32 word) = unat (789 :: 32 word)
   \<and> ucast MIN_PLAY_MS \<le> (774 :: 32 word)
   \<and> addNote 784 4 (gap 15 (setTempo 76 (MelodyBuilder_new (Some [\<lparr>freqHz = 0, durationMs = 0\<rparr>, \<lparr>freqHz = 0, durationMs = 0\<rparr>]) 2)))
       = Inr \<lparr>buffer = Some [\<lparr>freqHz = 784, durationMs = 774\<rparr>, \<lparr>freqHz = 0, durationMs = 15\<rparr>],
              capacity = 2, len = 2, ctx = \<lparr>bpm = 76, gapMs = 15\<rparr>, ok = True\<rparr>"
proof -
  let ?b = "gap 15 (setTempo 76 (MelodyBuilder_new (Some [\<lparr>freqHz = 0, durationMs = 0\<rparr>, \<lparr>freqHz = 0, durationMs = 0\<rparr>]) 2))"
  have b: "?b = \<lparr>buffer = Some [\<lparr>freqHz = 0, durationMs = 0\<rparr>, \<lparr>freqHz = 0, durationMs = 0\<rparr>],
              capacity = 2, len = 0, ctx = \<lparr>bpm = 76, gapMs = 15\<rparr>, ok = True\<rparr>"
    by (simp add: gap_def setTempo_def MelodyBuilder_new_def MelodyContext_default_def)
  have h: "(784 :: 16 word) \<noteq> 0" by simp
  have d: "fst (denomToMs 4 (bpm (ctx ?b)) ?b) = 789" unfolding b by (simp add: denomToMs_def)
  have g: "gapMs (ctx ?b) = 15" unfolding b by simp
  have s: "addNote_split 784 15 789 = (774, 15)"
    by (simp add: addNote_split_def MIN_PLAY_MS_def)
  from addNote_gap_split [OF h d g s, of "[\<lparr>freqHz = 0, durationMs = 0\<rparr>, \<lparr>freqHz = 0, durationMs = 0\<rparr>]",
         THEN conjunct2, THEN conjunct2, THEN conjunct2, THEN conjunct2]
  have "addNote 784 4 ?b = Inr \<lparr>buffer = Some [\<lparr>freqHz = 784, durationMs = 774\<rparr>, \<lparr>freqHz = 0, durationMs = 15\<rparr>],
              capacity = 2, len = 2, ctx = \<lparr>bpm = 76, gapMs = 15\<rparr>, ok = True\<rparr>"
    unfolding b by simp
  moreover have "(0 :: 16 word) < 15" "ucast MIN_PLAY_MS < (789 :: 32 word)"
    by (simp_all add: MIN_PLAY_MS_def)
  moreover from this addNote_gap_split [OF h d g s]
  have "unat (15 :: 32 word) = min (unat (15 :: 16 word)) (unat (789 :: 32 word) - unat MIN_PLAY_MS)"
    "unat (774 :: 32 word) + unat (15 :: 32 word) = unat (789 :: 32 word)"
    "ucast MIN_PLAY_MS \<le> (774 :: 32 word)"
    by (simp_all add: MIN_PLAY_MS_def)
  ultimately show ?thesis using h d g s by blast
qed

section \<open>Calls on an invalid builder\<close>

lemma invalid_stays: "\<not> ok b \<Longrightarrow> b\<lparr>ok := False\<rparr> = b"
  by simp

lemma for_each_indexed_from_invalid:
  "\<not> ok b \<Longrightarrow>
     for_each_indexed_from i n (\<lambda>index b'. if ok b' then body index b' else Inr b') b = Inr b"
  by (induction n arbitrary: i) (simp_all add: and_then_def)

lemma appendScore_invalid: "\<not> ok b \<Longrightarrow> appendScore score n b = Inr b"
  by (cases score)
     (simp_all add: appendScore_def for_each_indexed_def for_each_indexed_from_invalid)

lemma appendScoreReader_invalid: "\<not> ok b \<Longrightarrow> appendScoreReader reader n b = Inr b"
  by (simp add: appendScoreReader_def for_each_indexed_def for_each_indexed_from_invalid)

lemma pushStep_full_invalid:
  "\<not> ok b \<Longrightarrow> capacity b \<le> len b \<Longrightarrow> pushStep h ms b = Inr (False, b)"
  by (simp add: pushStep_def)

lemma denomToMs_invalid: "\<not> ok b \<Longrightarrow> snd (denomToMs dn bp b) = b"
  by (simp add: denomToMs_def Let_def)

lemma addToneMs_full_invalid:
  "\<not> ok b \<Longrightarrow> capacity b \<le> len b \<Longrightarrow> addToneMs h ms b = Inr b"
  by (simp add: addToneMs_def pushStep_full_invalid and_then_def)

lemma addRestMs_full_invalid:
  "\<not> ok b \<Longrightarrow> capacity b \<le> len b \<Longrightarrow> addRestMs ms b = Inr b"
  by (simp add: addRestMs_def pushStep_full_invalid and_then_def)

lemma addRest_full_invalid:
  assumes "\<not> ok b" "capacity b \<le> len b"
  shows "addRest dn b = Inr b"
proof -
  obtain ms b1 where d: "denomToMs dn (bpm (ctx b)) b = (ms, b1)" by (cases "denomToMs dn (bpm (ctx b)) b")
  with denomToMs_invalid [OF assms(1), of dn "bpm (ctx b)"] have "b1 = b" by simp
  with d assms show ?thesis
    by (simp add: addRest_def pushStep_full_invalid and_then_def)
qed

lemma addNote_full_invalid:
  assumes "\<not> ok b" "capacity b \<le> len b"
  shows "addNote h dn b = Inr b"
proof -
  obtain ms b1 where d: "denomToMs dn (bpm (ctx b)) b = (ms, b1)" by (cases "denomToMs dn (bpm (ctx b)) b")
  with denomToMs_invalid [OF assms(1), of dn "bpm (ctx b)"] have b1: "b1 = b" by simp
  obtain P R where s: "addNote_split h (gapMs (ctx b)) ms = (P, R)"
    by (cases "addNote_split h (gapMs (ctx b)) ms")
  from d b1 s assms show ?thesis
    by (simp add: addNote_def pushStep_full_invalid and_then_def)
qed

lemma addRest_room:
  assumes "buffer b = Some xs" "len b < capacity b" "capacity b \<le> length xs" "\<not> ok b"
  shows "addRest dn b =
           Inr (b\<lparr>buffer := Some (xs[len b := \<lparr>freqHz = 0,
                                     durationMs = fst (denomToMs dn (bpm (ctx b)) b)\<rparr>]),
                 len := len b + 1\<rparr>)"
proof -
  obtain ms b1 where d: "denomToMs dn (bpm (ctx b)) b = (ms, b1)" by (cases "denomToMs dn (bpm (ctx b)) b")
  with denomToMs_invalid [OF assms(4), of dn "bpm (ctx b)"] have b1: "b1 = b" by simp
  show ?thesis
    using d b1 pushStep_room [OF assms(1-3), of 0 ms]
    by (simp add: addRest_def and_then_def)
qed

lemma pushStep_len:
  "pushStep h ms b = Inr (r, b') \<Longrightarrow> len b \<le> len b'"
  by (auto simp add: pushStep_def split: if_splits option.splits)

lemma pushStep_total:
  assumes "buffer b = Some xs" "len b \<le> capacity b" "capacity b \<le> length xs"
  shows "\<exists>r b'. pushStep h ms b = Inr (r, b') \<and> len b \<le> len b'"
  using assms by (auto simp add: pushStep_def)

lemma addNote_room_grows:
  assumes "buffer b = Some xs" "len b < capacity b" "capacity b \<le> length xs"
    and "fst (denomToMs dn (bpm (ctx b)) b) \<noteq> 0"
  shows "\<exists>b'. addNote h dn b = Inr b' \<and> len b < len b'"
proof -
  obtain ms b1 where d: "denomToMs dn (bpm (ctx b)) b = (ms, b1)" by (cases "denomToMs dn (bpm (ctx b)) b")
  with assms(4) have ms: "ms \<noteq> 0" by simp
  from d ms have b1: "b1 = b" by (auto simp add: denomToMs_def Let_def split: if_splits)
  obtain P R where s: "addNote_split h (gapMs (ctx b)) ms = (P, R)"
    by (cases "addNote_split h (gapMs (ctx b)) ms")
  let ?b2 = "\<lambda>f t. b\<lparr>buffer := Some (xs[len b := \<lparr>freqHz = f, durationMs = t\<rparr>]), len := len b + 1\<rparr>"
  have push: "pushStep f t b = Inr (True, ?b2 f t)" for f t
    by (rule pushStep_room [OF assms(1-3)])
  have second: "\<exists>r b'. pushStep 0 R (?b2 h P) = Inr (r, b') \<and> len (?b2 h P) \<le> len b'"
    using assms(2,3) by (intro pushStep_total [where xs = "xs[len b := \<lparr>freqHz = h, durationMs = P\<rparr>]"]) simp_all
  then obtain r b' where r: "pushStep 0 R (?b2 h P) = Inr (r, b')" "len b + 1 \<le> len b'" by auto
  show ?thesis
  proof (cases "h = 0")
    case True
    with d b1 ms push [of 0 ms] show ?thesis by (simp add: addNote_def and_then_def)
  next
    case False
    show ?thesis
    proof (cases "0 < R")
      case True
      with False d b1 ms s push [of h P] r show ?thesis
        by (simp add: addNote_def and_then_def)
    next
      case False
      with \<open>h \<noteq> 0\<close> d b1 ms s push [of h P] show ?thesis
        by (simp add: addNote_def and_then_def)
    qed
  qed
qed

text \<open>
  Claim C1, as amended. On a builder whose \<open>ok_\<close> is false, \<open>appendScore\<close> (from an array
  and from a reader) changes nothing and returns the builder. \<open>addNote\<close>, \<open>addRest\<close>,
  \<open>addToneMs\<close> and \<open>addRestMs\<close> check the capacity only: they change nothing and return the
  builder when the buffer is full, as it is after an overflow; while a slot is free,
  \<open>addToneMs\<close>, \<open>addRestMs\<close> and \<open>addRest\<close> still write one step, and \<open>addNote\<close> still
  appends unless the conversion returns 0.
\<close>

theorem invalid_builder_calls:
  assumes "\<not> ok b"
  shows "appendScore score n b = Inr b
       \<and> appendScoreReader reader n b = Inr b
       \<and> (len b = capacity b \<longrightarrow>
            addNote h dn b = Inr b \<and> addRest dn b = Inr b
            \<and> addToneMs h ms b = Inr b \<and> addRestMs ms b = Inr b)
       \<and> (buffer b = Some xs \<and> len b < capacity b \<and> capacity b \<le> length xs \<longrightarrow>
            addToneMs h ms b =
              Inr (b\<lparr>buffer := Some (xs[len b := \<lparr>freqHz = h, durationMs = ms\<rparr>]),
                    len := len b + 1\<rparr>)
            \<and> addRestMs ms b =
              Inr (b\<lparr>buffer := Some (xs[len b := \<lparr>freqHz = 0, durationMs = ms\<rparr>]),
                    len := len b + 1\<rparr>)
            \<and> addRest dn b =
              Inr (b\<lparr>buffer := Some (xs[len b := \<lparr>freqHz = 0,
                                        durationMs = fst (denomToMs dn (bpm (ctx b)) b)\<rparr>]),
                    len := len b + 1\<rparr>)
            \<and> (fst (denomToMs dn (bpm (ctx b)) b) \<noteq> 0 \<longrightarrow>
                 (\<exists>b'. addNote h dn b = Inr b' \<and> len b < len b')))"
proof (intro conjI impI)
  show "appendScore score n b = Inr b" by (rule appendScore_invalid [OF assms])
  show "appendScoreReader reader n b = Inr b" by (rule appendScoreReader_invalid [OF assms])
next
  assume full: "len b = capacity b"
  show "addNote h dn b = Inr b" using assms full by (simp add: addNote_full_invalid)
  show "addRest dn b = Inr b" using assms full by (simp add: addRest_full_invalid)
  show "addToneMs h ms b = Inr b" using assms full by (simp add: addToneMs_full_invalid)
  show "addRestMs ms b = Inr b" using assms full by (simp add: addRestMs_full_invalid)
next
  assume room: "buffer b = Some xs \<and> len b < capacity b \<and> capacity b \<le> length xs"
  then have r: "buffer b = Some xs" "len b < capacity b" "capacity b \<le> length xs" by blast+
  show "addToneMs h ms b =
          Inr (b\<lparr>buffer := Some (xs[len b := \<lparr>freqHz = h, durationMs = ms\<rparr>]), len := len b + 1\<rparr>)"
    by (rule addToneMs_room [OF r])
  show "addRestMs ms b =
          Inr (b\<lparr>buffer := Some (xs[len b := \<lparr>freqHz = 0, durationMs = ms\<rparr>]), len := len b + 1\<rparr>)"
    unfolding addRestMs_is_addToneMs by (rule addToneMs_room [OF r])
  show "addRest dn b =
          Inr (b\<lparr>buffer := Some (xs[len b := \<lparr>freqHz = 0,
                                    durationMs = fst (denomToMs dn (bpm (ctx b)) b)\<rparr>]),
                len := len b + 1\<rparr>)"
    by (rule addRest_room [OF r assms])
  show "\<exists>b'. addNote h dn b = Inr b' \<and> len b < len b'"
    if "fst (denomToMs dn (bpm (ctx b)) b) \<noteq> 0"
    by (rule addNote_room_grows [OF r that])
qed

text \<open>
  A full builder that overflowed, on which the calls change nothing, and a builder
  invalidated by \<open>setTempo(0)\<close> with a free slot, on which \<open>addRestMs(50)\<close> writes.
\<close>

theorem invalid_builder_calls_witness:
  "\<not> ok \<lparr>buffer = Some [\<lparr>freqHz = 262, durationMs = 500\<rparr>], capacity = 1, len = 1,
           ctx = MelodyContext_default, ok = False\<rparr>
   \<and> appendScore (Some [\<lparr>hz = 440, denom = 4\<rparr>]) 1
        \<lparr>buffer = Some [\<lparr>freqHz = 262, durationMs = 500\<rparr>], capacity = 1, len = 1,
         ctx = MelodyContext_default, ok = False\<rparr>
       = Inr \<lparr>buffer = Some [\<lparr>freqHz = 262, durationMs = 500\<rparr>], capacity = 1, len = 1,
              ctx = MelodyContext_default, ok = False\<rparr>
   \<and> addNote 440 4
        \<lparr>buffer = Some [\<lparr>freqHz = 262, durationMs = 500\<rparr>], capacity = 1, len = 1,
         ctx = MelodyContext_default, ok = False\<rparr>
       = Inr \<lparr>buffer = Some [\<lparr>freqHz = 262, durationMs = 500\<rparr>], capacity = 1, len = 1,
              ctx = MelodyContext_default, ok = False\<rparr>
   \<and> \<not> ok (setTempo 0 (MelodyBuilder_new (Some [\<lparr>freqHz = 0, durationMs = 0\<rparr>]) 1))
   \<and> addRestMs 50 (setTempo 0 (MelodyBuilder_new (Some [\<lparr>freqHz = 0, durationMs = 0\<rparr>]) 1))
       = Inr \<lparr>buffer = Some [\<lparr>freqHz = 0, durationMs = 50\<rparr>], capacity = 1, len = 1,
              ctx = MelodyContext_default, ok = False\<rparr>"
proof -
  let ?f = "\<lparr>buffer = Some [\<lparr>freqHz = 262, durationMs = 500\<rparr>], capacity = 1, len = 1,
             ctx = MelodyContext_default, ok = False\<rparr>"
  let ?r = "setTempo 0 (MelodyBuilder_new (Some [\<lparr>freqHz = 0, durationMs = 0\<rparr>]) 1)"
  have f: "\<not> ok ?f" by simp
  have r: "\<not> ok ?r" by (simp add: setTempo_def)
  have rv: "?r = \<lparr>buffer = Some [\<lparr>freqHz = 0, durationMs = 0\<rparr>], capacity = 1, len = 0,
                   ctx = MelodyContext_default, ok = False\<rparr>"
    by (simp add: setTempo_def MelodyBuilder_new_def)
  from invalid_builder_calls [OF f, where score = "Some [\<lparr>hz = 440, denom = 4\<rparr>]" and n = 1
         and h = 440 and dn = 4]
  have 1: "appendScore (Some [\<lparr>hz = 440, denom = 4\<rparr>]) 1 ?f = Inr ?f"
    and 2: "addNote 440 4 ?f = Inr ?f" by simp_all
  from invalid_builder_calls [OF r, where xs = "[\<lparr>freqHz = 0, durationMs = 0\<rparr>]" and ms = 50]
  have 3: "addRestMs 50 ?r = Inr \<lparr>buffer = Some [\<lparr>freqHz = 0, durationMs = 50\<rparr>], capacity = 1,
              len = 1, ctx = MelodyContext_default, ok = False\<rparr>"
    unfolding rv by simp
  from f r 1 2 3 show ?thesis by blast
qed

text \<open>
  Claim C1 as stated fails: after \<open>setTempo(0)\<close> on a fresh builder of capacity 2 the
  builder is invalid with length 0, and \<open>addToneMs(440, 100)\<close> writes slot 0 and makes
  the length 1.
\<close>

theorem invalid_addToneMs_counterexample:
  "\<not> ok (setTempo 0 (MelodyBuilder_new (Some [\<lparr>freqHz = 0, durationMs = 0\<rparr>, \<lparr>freqHz = 0, durationMs = 0\<rparr>]) 2))
   \<and> len (setTempo 0 (MelodyBuilder_new (Some [\<lparr>freqHz = 0, durationMs = 0\<rparr>, \<lparr>freqHz = 0, durationMs = 0\<rparr>]) 2)) = 0
   \<and> addToneMs 440 100
        (setTempo 0 (MelodyBuilder_new (Some [\<lparr>freqHz = 0, durationMs = 0\<rparr>, \<lparr>freqHz = 0, durationMs = 0\<rparr>]) 2))
       = Inr \<lparr>buffer = Some [\<lparr>freqHz = 440, durationMs = 100\<rparr>, \<lparr>freqHz = 0, durationMs = 0\<rparr>],
              capacity = 2, len = 1, ctx = \<lparr>bpm = 120, gapMs = 0\<rparr>, ok = False\<rparr>"
  by (simp add: setTempo_def MelodyBuilder_new_def MelodyContext_default_def addToneMs_def
        pushStep_def and_then_def)

section \<open>The capacity bound\<close>

lemma within_capacityD:
  "within_capacity C b \<Longrightarrow> capacity b = C \<and> len b \<le> C \<and> (\<exists>xs. buffer b = Some xs \<and> length xs = C)"
  by (auto simp add: within_capacity_def split: option.splits)

lemma within_capacity_ok [simp]: "within_capacity C (b\<lparr>ok := v\<rparr>) = within_capacity C b"
  by (simp add: within_capacity_def)

lemma within_capacity_ctx [simp]: "within_capacity C (b\<lparr>ctx := v\<rparr>) = within_capacity C b"
  by (simp add: within_capacity_def)

lemma pushStep_within:
  assumes "within_capacity C b"
  shows "\<exists>r b'. pushStep h ms b = Inr (r, b') \<and> within_capacity C b'"
proof -
  from within_capacityD [OF assms] obtain xs
    where b: "capacity b = C" "len b \<le> C" "buffer b = Some xs" "length xs = C" by blast
  show ?thesis
  proof (cases "len b < capacity b")
    case True
    with b have "pushStep h ms b =
        Inr (True, b\<lparr>buffer := Some (xs[len b := \<lparr>freqHz = h, durationMs = ms\<rparr>]), len := len b + 1\<rparr>)"
      by (intro pushStep_room) simp_all
    moreover from True b have
      "within_capacity C (b\<lparr>buffer := Some (xs[len b := \<lparr>freqHz = h, durationMs = ms\<rparr>]), len := len b + 1\<rparr>)"
      by (simp add: within_capacity_def)
    ultimately show ?thesis by blast
  next
    case False
    then have "pushStep h ms b = Inr (False, b\<lparr>ok := False\<rparr>)" by (rule pushStep_full)
    moreover from assms have "within_capacity C (b\<lparr>ok := False\<rparr>)" by simp
    ultimately show ?thesis by blast
  qed
qed

lemma denomToMs_within:
  "within_capacity C b \<Longrightarrow> denomToMs dn bp b = (ms, b1) \<Longrightarrow> within_capacity C b1"
  by (auto simp add: denomToMs_def Let_def split: if_splits)

lemma addToneMs_within:
  assumes "within_capacity C b"
  shows "no_bad_write C (addToneMs h ms b)"
  using pushStep_within [OF assms, of h ms] by (auto simp add: addToneMs_def and_then_def)

lemma addRestMs_within: "within_capacity C b \<Longrightarrow> no_bad_write C (addRestMs ms b)"
  unfolding addRestMs_is_addToneMs by (rule addToneMs_within)

lemma addRest_within:
  assumes "within_capacity C b"
  shows "no_bad_write C (addRest dn b)"
proof -
  obtain ms b1 where d: "denomToMs dn (bpm (ctx b)) b = (ms, b1)" by (cases "denomToMs dn (bpm (ctx b)) b")
  from denomToMs_within [OF assms d] have "within_capacity C b1" .
  from pushStep_within [OF this, of 0 ms] d show ?thesis
    by (auto simp add: addRest_def and_then_def)
qed

lemma addNote_within:
  assumes "within_capacity C b"
  shows "no_bad_write C (addNote h dn b)"
proof -
  obtain ms b1 where d: "denomToMs dn (bpm (ctx b)) b = (ms, b1)" by (cases "denomToMs dn (bpm (ctx b)) b")
  from denomToMs_within [OF assms d] have b1: "within_capacity C b1" .
  obtain P R where s: "addNote_split h (gapMs (ctx b1)) ms = (P, R)"
    by (cases "addNote_split h (gapMs (ctx b1)) ms")
  from pushStep_within [OF b1, of 0 ms] obtain r0 c0
    where p0: "pushStep 0 ms b1 = Inr (r0, c0)" "within_capacity C c0" by blast
  from pushStep_within [OF b1, of h P] obtain r2 b2
    where p1: "pushStep h P b1 = Inr (r2, b2)" "within_capacity C b2" by blast
  from pushStep_within [OF p1(2), of 0 R] obtain r3 b3
    where p2: "pushStep 0 R b2 = Inr (r3, b3)" "within_capacity C b3" by blast
  from d b1 s p0 p1 p2 show ?thesis
    by (simp add: addNote_def and_then_def)
qed

lemma for_each_indexed_from_within:
  assumes body: "\<And>i b. within_capacity C b \<Longrightarrow> no_bad_write C (body i b)"
    and "within_capacity C b"
  shows "no_bad_write C (for_each_indexed_from i n body b)"
  using assms(2)
proof (induction n arbitrary: i b)
  case 0
  then show ?case by simp
next
  case (Suc n)
  from body [OF Suc.prems, of i] show ?case
  proof (cases "body i b")
    case (Inl e)
    with body [OF Suc.prems, of i] show ?thesis by (simp add: and_then_def)
  next
    case (Inr b')
    with body [OF Suc.prems, of i] have "within_capacity C b'" by simp
    from Suc.IH [OF this] Inr show ?thesis by (simp add: and_then_def)
  qed
qed

lemma appendScore_within:
  assumes "within_capacity C b"
  shows "no_bad_write C (appendScore score n b)"
proof (cases score)
  case None
  with assms show ?thesis by (simp add: appendScore_def)
next
  case (Some ns)
  have "no_bad_write C
      (if ok b' then and_then (read_at ns i) (\<lambda>note. addNote (hz note) (denom note) b') else Inr b')"
    if "within_capacity C b'" for i b'
    using that addNote_within [OF that]
    by (simp add: read_at_def and_then_def)
  from for_each_indexed_from_within [where body = "\<lambda>i b'. if ok b' then and_then (read_at ns i)
        (\<lambda>note. addNote (hz note) (denom note) b') else Inr b'", OF this assms]
  show ?thesis using Some by (simp add: appendScore_def for_each_indexed_def)
qed

lemma appendScoreReader_within:
  assumes "within_capacity C b"
  shows "no_bad_write C (appendScoreReader reader n b)"
proof -
  have "no_bad_write C
      (if ok b' then (let note = reader i in addNote (hz note) (denom note) b') else Inr b')"
    if "within_capacity C b'" for i b'
    using that addNote_within [OF that] by (simp add: Let_def)
  from for_each_indexed_from_within [where body = "\<lambda>i b'. if ok b'
        then (let note = reader i in addNote (hz note) (denom note) b') else Inr b'", OF this assms]
  show ?thesis by (simp add: appendScoreReader_def for_each_indexed_def)
qed

lemma builder_step_within:
  assumes "within_capacity C b"
  shows "no_bad_write C (builder_step c b)"
proof (cases c)
  case (ClearMelody toDefault)
  with assms show ?thesis by (simp add: clearMelody_def within_capacity_def Let_def)
next
  case (SetTempo t)
  with assms show ?thesis by (simp add: setTempo_def)
next
  case (Gap g)
  with assms show ?thesis by (simp add: gap_def)
next
  case (AddNote h dn)
  with assms show ?thesis by (simp add: addNote_within)
next
  case (AddRest dn)
  with assms show ?thesis by (simp add: addRest_within)
next
  case (AddToneMs h ms)
  with assms show ?thesis by (simp add: addToneMs_within)
next
  case (AddRestMs ms)
  with assms show ?thesis by (simp add: addRestMs_within)
next
  case (AppendScore score n)
  with assms show ?thesis by (simp add: appendScore_within)
next
  case (AppendScoreReader reader n)
  with assms show ?thesis by (simp add: appendScoreReader_within)
qed

lemma builder_run_within:
  "within_capacity C b \<Longrightarrow> no_bad_write C (builder_run cs b)"
proof (induction cs arbitrary: b)
  case Nil
  then show ?case by simp
next
  case (Cons c cs)
  show ?case
  proof (cases "builder_step c b")
    case (Inl e)
    with builder_step_within [OF Cons.prems, of c] show ?thesis by (simp add: and_then_def)
  next
    case (Inr b')
    with builder_step_within [OF Cons.prems, of c] have "within_capacity C b'" by simp
    from Cons.IH [OF this] Inr show ?thesis by (simp add: and_then_def)
  qed
qed

lemma MelodyBuilder_new_within: "within_capacity (length xs) (MelodyBuilder_new (Some xs) (length xs))"
  by (simp add: within_capacity_def MelodyBuilder_new_def)

lemma addToneMs_full:
  "capacity b \<le> len b \<Longrightarrow> addToneMs h ms b = Inr (b\<lparr>ok := False\<rparr>)"
  by (simp add: addToneMs_def pushStep_full and_then_def)

lemma Step_eta: "\<lparr>freqHz = freqHz s, durationMs = durationMs s\<rparr> = (s :: Step)"
  by (cases s) simp

lemma addToneMs_step:
  assumes "buffer b = Some ys" "length ys = capacity b" "len b < capacity b"
  shows "addToneMs (freqHz s) (durationMs s) b = Inr (b\<lparr>buffer := Some (ys[len b := s]), len := len b + 1\<rparr>)"
  using addToneMs_room [of b ys "freqHz s" "durationMs s"] assms by (simp add: Step_eta)

lemma addToneMs_run:
  assumes "buffer b = Some ys" "length ys = capacity b" "len b \<le> capacity b"
  shows "builder_run (map (\<lambda>s. AddToneMs (freqHz s) (durationMs s)) ss) b =
           Inr (b\<lparr>buffer := Some (take (len b) ys @ take (capacity b - len b) ss
                                    @ drop (len b + length ss) ys),
                 len := min (capacity b) (len b + length ss),
                 ok := (ok b \<and> len b + length ss \<le> capacity b)\<rparr>)"
  using assms
proof (induction ss arbitrary: b ys)
  case Nil
  then show ?case by simp
next
  case (Cons s ss)
  show ?case
  proof (cases "len b < capacity b")
    case True
    let ?b1 = "b\<lparr>buffer := Some (ys[len b := s]), len := len b + 1\<rparr>"
    have step: "addToneMs (freqHz s) (durationMs s) b = Inr ?b1"
      using Cons.prems True by (intro addToneMs_step)
    have ih: "builder_run (map (\<lambda>s. AddToneMs (freqHz s) (durationMs s)) ss) ?b1 =
           Inr (?b1\<lparr>buffer := Some (take (len ?b1) (ys[len b := s]) @ take (capacity ?b1 - len ?b1) ss
                                    @ drop (len ?b1 + length ss) (ys[len b := s])),
                 len := min (capacity ?b1) (len ?b1 + length ss),
                 ok := (ok ?b1 \<and> len ?b1 + length ss \<le> capacity ?b1)\<rparr>)"
      using Cons.prems True by (intro Cons.IH) simp_all
    have l: "len b < length ys" using Cons.prems True by simp
    have t: "take (Suc (len b)) (ys[len b := s]) = take (len b) ys @ [s]"
      using l by (simp add: take_Suc_conv_app_nth)
    have tk: "take (capacity b - len b) (s # ss) = s # take (capacity b - Suc (len b)) ss"
    proof -
      from True have "capacity b - len b = Suc (capacity b - Suc (len b))" by simp
      then show ?thesis by (simp only: take_Suc_Cons)
    qed
    show ?thesis
      using True by (simp add: step ih [simplified] and_then_def t tk)
  next
    case False
    with Cons.prems have full: "len b = capacity b" by simp
    have step: "addToneMs (freqHz s) (durationMs s) b = Inr (b\<lparr>ok := False\<rparr>)"
      using full by (simp add: addToneMs_full)
    have ih: "builder_run (map (\<lambda>s. AddToneMs (freqHz s) (durationMs s)) ss) (b\<lparr>ok := False\<rparr>) =
           Inr ((b\<lparr>ok := False\<rparr>)\<lparr>buffer := Some (take (len (b\<lparr>ok := False\<rparr>)) ys
                   @ take (capacity (b\<lparr>ok := False\<rparr>) - len (b\<lparr>ok := False\<rparr>)) ss
                   @ drop (len (b\<lparr>ok := False\<rparr>) + length ss) ys),
                 len := min (capacity (b\<lparr>ok := False\<rparr>)) (len (b\<lparr>ok := False\<rparr>) + length ss),
                 ok := (ok (b\<lparr>ok := False\<rparr>) \<and> len (b\<lparr>ok := False\<rparr>) + length ss \<le> capacity (b\<lparr>ok := False\<rparr>))\<rparr>)"
      using Cons.prems by (intro Cons.IH) simp_all
    show ?thesis
      using full Cons.prems by (simp add: step ih [simplified] and_then_def)
  qed
qed

lemma overflow_fresh:
  assumes "length xs < length ss"
  shows "builder_run (map (\<lambda>s. AddToneMs (freqHz s) (durationMs s)) ss)
           (MelodyBuilder_new (Some xs) (length xs))
         = Inr \<lparr>buffer = Some (take (length xs) ss), capacity = length xs, len = length xs,
                ctx = MelodyContext_default, ok = False\<rparr>"
proof -
  let ?b = "MelodyBuilder_new (Some xs) (length xs)"
  have "buffer ?b = Some xs" "length xs = capacity ?b" "len ?b \<le> capacity ?b"
    by (simp_all add: MelodyBuilder_new_def)
  from addToneMs_run [OF this, of ss] assms show ?thesis
    by (simp add: MelodyBuilder_new_def)
qed

text \<open>
  Claim C4. On a builder made over a buffer of \<open>C\<close> slots with capacity \<open>C\<close>, no sequence
  of builder calls ends in a write outside the buffer or through a null pointer, and the
  builder it leaves has capacity \<open>C\<close>, the same \<open>C\<close> slots and a length of at most \<open>C\<close>;
  when that length is \<open>C\<close>, a further step is discarded: the call only clears \<open>ok_\<close>.
  Appending more than \<open>C\<close> steps to the fresh builder leaves the first \<open>C\<close> of them in
  the buffer, the length at \<open>C\<close> and \<open>ok_\<close> false.
\<close>

theorem builder_never_exceeds_capacity:
  assumes "length xs = C"
  shows "(\<forall>i. builder_run cs (MelodyBuilder_new (Some xs) C) \<noteq> Inl (WriteOutOfBounds i))
       \<and> builder_run cs (MelodyBuilder_new (Some xs) C) \<noteq> Inl NullAccess
       \<and> (\<forall>b. builder_run cs (MelodyBuilder_new (Some xs) C) = Inr b \<longrightarrow>
             len b \<le> C \<and> capacity b = C \<and> (\<exists>ys. buffer b = Some ys \<and> length ys = C)
             \<and> (len b = C \<longrightarrow> addToneMs h ms b = Inr (b\<lparr>ok := False\<rparr>)))
       \<and> (C < length ss \<longrightarrow>
             builder_run (map (\<lambda>s. AddToneMs (freqHz s) (durationMs s)) ss)
               (MelodyBuilder_new (Some xs) C)
             = Inr \<lparr>buffer = Some (take C ss), capacity = C, len = C,
                    ctx = MelodyContext_default, ok = False\<rparr>)"
proof -
  let ?r = "builder_run cs (MelodyBuilder_new (Some xs) C)"
  have safe: "no_bad_write C ?r"
    using assms MelodyBuilder_new_within [of xs] by (intro builder_run_within) simp
  have 1: "?r \<noteq> Inl (WriteOutOfBounds i)" for i
    using safe by (cases ?r) auto
  have 2: "?r \<noteq> Inl NullAccess"
    using safe by (cases ?r) auto
  have 3: "len b \<le> C \<and> capacity b = C \<and> (\<exists>ys. buffer b = Some ys \<and> length ys = C)
             \<and> (len b = C \<longrightarrow> addToneMs h ms b = Inr (b\<lparr>ok := False\<rparr>))" if "?r = Inr b" for b
  proof -
    from safe that have "within_capacity C b" by simp
    from within_capacityD [OF this] show ?thesis by (auto simp add: addToneMs_full)
  qed
  have 4: "builder_run (map (\<lambda>s. AddToneMs (freqHz s) (durationMs s)) ss)
               (MelodyBuilder_new (Some xs) C)
             = Inr \<lparr>buffer = Some (take C ss), capacity = C, len = C,
                    ctx = MelodyContext_default, ok = False\<rparr>" if "C < length ss"
    using overflow_fresh [of xs ss] that assms by simp
  from 1 2 3 4 show ?thesis by blast
qed

text \<open>
  Capacity 2: a note and a rest fill the buffer and a third step is discarded; three raw
  tones keep the first two.
\<close>

theorem builder_never_exceeds_capacity_witness:
  "length [\<lparr>freqHz = 0, durationMs = 0\<rparr>, \<lparr>freqHz = 0, durationMs = 0\<rparr>] = 2
   \<and> builder_run [AddNote 440 4, AddRest 8, AddToneMs 262 100]
        (MelodyBuilder_new (Some [\<lparr>freqHz = 0, durationMs = 0\<rparr>, \<lparr>freqHz = 0, durationMs = 0\<rparr>]) 2)
       = Inr \<lparr>buffer = Some [\<lparr>freqHz = 440, durationMs = 500\<rparr>, \<lparr>freqHz = 0, durationMs = 250\<rparr>],
              capacity = 2, len = 2, ctx = MelodyContext_default, ok = False\<rparr>
   \<and> addToneMs 330 100
        \<lparr>buffer = Some [\<lparr>freqHz = 440, durationMs = 500\<rparr>, \<lparr>freqHz = 0, durationMs = 250\<rparr>],
         capacity = 2, len = 2, ctx = MelodyContext_default, ok = False\<rparr>
       = Inr \<lparr>buffer = Some [\<lparr>freqHz = 440, durationMs = 500\<rparr>, \<lparr>freqHz = 0, durationMs = 250\<rparr>],
              capacity = 2, len = 2, ctx = MelodyContext_default, ok = False\<rparr>
   \<and> builder_run [AddToneMs 262 100, AddToneMs 294 100, AddToneMs 330 100]
        (MelodyBuilder_new (Some [\<lparr>freqHz = 0, durationMs = 0\<rparr>, \<lparr>freqHz = 0, durationMs = 0\<rparr>]) 2)
       = Inr \<lparr>buffer = Some [\<lparr>freqHz = 262, durationMs = 100\<rparr>, \<lparr>freqHz = 294, durationMs = 100\<rparr>],
              capacity = 2, len = 2, ctx = MelodyContext_default, ok = False\<rparr>"
proof -
  let ?xs = "[\<lparr>freqHz = 0, durationMs = 0\<rparr>, \<lparr>freqHz = 0, durationMs = 0\<rparr>]"
  let ?cs = "[AddNote 440 4, AddRest 8, AddToneMs 262 100]"
  let ?b = "\<lparr>buffer = Some [\<lparr>freqHz = 440, durationMs = 500\<rparr>, \<lparr>freqHz = 0, durationMs = 250\<rparr>],
             capacity = 2, len = 2, ctx = MelodyContext_default, ok = False\<rparr>"
  have l: "length ?xs = 2" by simp
  have run: "builder_run ?cs (MelodyBuilder_new (Some ?xs) 2) = Inr ?b"
    by (simp add: MelodyBuilder_new_def MelodyContext_default_def addNote_def addRest_def
          addToneMs_def denomToMs_def addNote_split_def pushStep_def and_then_def)
  note t = builder_never_exceeds_capacity [OF l, where cs = ?cs and h = 330 and ms = 100
      and ss = "[\<lparr>freqHz = 262, durationMs = 100\<rparr>, \<lparr>freqHz = 294, durationMs = 100\<rparr>,
                 \<lparr>freqHz = 330, durationMs = 100\<rparr>]"]
  from t run have a: "addToneMs 330 100 ?b = Inr ?b" by simp
  from t have o: "builder_run [AddToneMs 262 100, AddToneMs 294 100, AddToneMs 330 100]
        (MelodyBuilder_new (Some ?xs) 2)
       = Inr \<lparr>buffer = Some [\<lparr>freqHz = 262, durationMs = 100\<rparr>, \<lparr>freqHz = 294, durationMs = 100\<rparr>],
              capacity = 2, len = 2, ctx = MelodyContext_default, ok = False\<rparr>"
    by simp
  from l run a o show ?thesis by blast
qed

section \<open>Steps of zero duration, and the reader overload of appendScore\<close>

text \<open>
  Claim C5 fails on the code: \<open>addRest\<close> does not test the converted duration as
  \<open>addNote\<close> does. On a fresh builder of capacity 1, \<open>addRest(0)\<close> converts to 0 ms,
  clears \<open>ok_\<close> and still writes the step \<open>{0 Hz, 0 ms}\<close> into slot 0, making the length 1.
\<close>

theorem addRest_zero_duration_step:
  "addRest 0 (MelodyBuilder_new (Some [\<lparr>freqHz = 440, durationMs = 7\<rparr>]) 1)
     = Inr \<lparr>buffer = Some [\<lparr>freqHz = 0, durationMs = 0\<rparr>], capacity = 1, len = 1,
            ctx = MelodyContext_default, ok = False\<rparr>"
  by (simp add: addRest_def denomToMs_def pushStep_def and_then_def MelodyBuilder_new_def
        MelodyContext_default_def)

lemma appendScoreReader_ignores_count:
  "appendScoreReader reader n b = appendScoreReader reader n' b"
  by (simp add: appendScoreReader_def)

text \<open>
  Claim C7 fails on the code: the reader overload loops over the compiled length, not over
  \<open>count\<close>. On a fresh builder of capacity 3, \<open>appendScore(reader, 2)\<close> never calls the
  reader and appends nothing; on a builder holding one step, \<open>appendScore(reader, 0)\<close>
  calls the reader at index 0 and appends that note.
\<close>

theorem appendScoreReader_uses_length:
  "appendScoreReader (\<lambda>i. \<lparr>hz = 440, denom = 4\<rparr>) 2
      (MelodyBuilder_new (Some [\<lparr>freqHz = 0, durationMs = 0\<rparr>, \<lparr>freqHz = 0, durationMs = 0\<rparr>,
                                \<lparr>freqHz = 0, durationMs = 0\<rparr>]) 3)
     = Inr \<lparr>buffer = Some [\<lparr>freqHz = 0, durationMs = 0\<rparr>, \<lparr>freqHz = 0, durationMs = 0\<rparr>,
                           \<lparr>freqHz = 0, durationMs = 0\<rparr>],
            capacity = 3, len = 0, ctx = MelodyContext_default, ok = True\<rparr>
   \<and> appendScoreReader (\<lambda>i. \<lparr>hz = 440, denom = 4\<rparr>) 0
      \<lparr>buffer = Some [\<lparr>freqHz = 262, durationMs = 100\<rparr>, \<lparr>freqHz = 0, durationMs = 0\<rparr>,
                      \<lparr>freqHz = 0, durationMs = 0\<rparr>],
       capacity = 3, len = 1, ctx = MelodyContext_default, ok = True\<rparr>
     = Inr \<lparr>buffer = Some [\<lparr>freqHz = 262, durationMs = 100\<rparr>, \<lparr>freqHz = 440, durationMs = 500\<rparr>,
                           \<lparr>freqHz = 0, durationMs = 0\<rparr>],
            capacity = 3, len = 2, ctx = MelodyContext_default, ok = True\<rparr>"
  by (simp add: appendScoreReader_def for_each_indexed_def addNote_def denomToMs_def
        addNote_split_def pushStep_def and_then_def MelodyBuilder_new_def
        MelodyContext_default_def)

section \<open>The end of a melody, and the empty melody\<close>

lemma idle_polls:
  "state p = IDLE \<Longrightarrow> player_run (map (\<lambda>(u, u'). Update u u') us) p = Inr p"
  by (induction us) (auto simp add: update_def and_then_def)

lemma advance_loops:
  assumes "melody p = Some m" "count m \<le> melodyStepIdx p + 1" "looping p"
  shows "advanceToNextStep p = p\<lparr>melodyStepIdx := 0, state := START_STEP\<rparr>"
  using assms by (simp add: advanceToNextStep_def Let_def)

lemma advance_stops:
  assumes "melody p = Some m" "count m \<le> melodyStepIdx p + 1" "\<not> looping p"
  shows "advanceToNextStep p =
           p\<lparr>hwBackend := hwBackend p @ [Stop], melody := None, looping := False,
             melodyStepIdx := 0, state := IDLE, stepDelay := stopDelay (stepDelay p)\<rparr>"
  using assms by (simp add: advanceToNextStep_def Let_def stop_def)

lemma playing_elapsed:
  assumes "state p = PLAYING_STEP" "melody p = Some m" "steps m = Some xs"
    and "melodyStepIdx p < length xs"
    and "\<not> disarm (stepDelay p)" "delayTime (stepDelay p) \<le> now - previousTime (stepDelay p)"
  shows "update now now' p =
           Inr (p\<lparr>stepDelay := restartTimer now' (stepDelay p), state := ADVANCE_STEP\<rparr>)"
  using assms
  by (simp add: update_def isDelayTimeElapsed_def getCurrentStep_def read_at_def and_then_def)

text \<open>
  Claim C6. With a non-empty melody whose last step is the current one (the index plus 1
  is the count, so the increment reaches the end): in
  \<open>ADVANCE_STEP\<close> the poll, if looping is on, resets the index to 0 and goes to
  \<open>START_STEP\<close>; if looping is off it calls the backend's \<open>stop()\<close> once and goes to
  \<open>IDLE\<close>. Without looping, from \<open>PLAYING_STEP\<close> on the last step, once the timer has
  elapsed, any two or more polls end in \<open>IDLE\<close> with exactly one \<open>stop()\<close> added to the
  backend's calls.
\<close>

theorem end_of_melody:
  assumes "melody p = Some m" and "0 < count m" and "melodyStepIdx p + 1 = count m"
  shows "(state p = ADVANCE_STEP \<and> looping p \<longrightarrow>
            update now now' p = Inr (p\<lparr>melodyStepIdx := 0, state := START_STEP\<rparr>))
       \<and> (state p = ADVANCE_STEP \<and> \<not> looping p \<longrightarrow>
            update now now' p =
              Inr (p\<lparr>hwBackend := hwBackend p @ [Stop], melody := None, looping := False,
                    melodyStepIdx := 0, state := IDLE,
                    stepDelay := stopDelay (stepDelay p)\<rparr>))
       \<and> (state p = PLAYING_STEP \<and> \<not> looping p \<and> steps m = Some xs
            \<and> melodyStepIdx p < length xs \<and> \<not> disarm (stepDelay p)
            \<and> delayTime (stepDelay p) \<le> now - previousTime (stepDelay p) \<longrightarrow>
            player_run (Update now now' # Update t t' # map (\<lambda>(u, u'). Update u u') us) p =
              Inr (p\<lparr>hwBackend := hwBackend p @ [Stop], melody := None, looping := False,
                    melodyStepIdx := 0, state := IDLE,
                    stepDelay := stopDelay (restartTimer now' (stepDelay p))\<rparr>))"
proof (intro conjI impI)
  assume "state p = ADVANCE_STEP \<and> looping p"
  then show "update now now' p = Inr (p\<lparr>melodyStepIdx := 0, state := START_STEP\<rparr>)"
    using advance_loops [OF assms(1)] assms(3) by (simp add: update_def)
next
  assume "state p = ADVANCE_STEP \<and> \<not> looping p"
  then show "update now now' p =
      Inr (p\<lparr>hwBackend := hwBackend p @ [Stop], melody := None, looping := False,
            melodyStepIdx := 0, state := IDLE, stepDelay := stopDelay (stepDelay p)\<rparr>)"
    using advance_stops [OF assms(1)] assms(3) by (simp add: update_def)
next
  assume a: "state p = PLAYING_STEP \<and> \<not> looping p \<and> steps m = Some xs
            \<and> melodyStepIdx p < length xs \<and> \<not> disarm (stepDelay p)
            \<and> delayTime (stepDelay p) \<le> now - previousTime (stepDelay p)"
  let ?q = "p\<lparr>stepDelay := restartTimer now' (stepDelay p), state := ADVANCE_STEP\<rparr>"
  let ?r = "p\<lparr>hwBackend := hwBackend p @ [Stop], melody := None, looping := False,
              melodyStepIdx := 0, state := IDLE,
              stepDelay := stopDelay (restartTimer now' (stepDelay p))\<rparr>"
  from a assms(1) have first: "update now now' p = Inr ?q"
    by (intro playing_elapsed) blast+
  have "advanceToNextStep ?q = ?r"
    using advance_stops [of ?q m] assms(1,3) a by simp
  then have second: "update t t' ?q = Inr ?r" by (simp add: update_def)
  have rest: "player_run (map (\<lambda>(u, u'). Update u u') us) ?r = Inr ?r"
    by (rule idle_polls) simp
  show "player_run (Update now now' # Update t t' # map (\<lambda>(u, u'). Update u u') us) p = Inr ?r"
    by (simp add: first second rest and_then_def)
qed

text \<open>
  The melody \<open>[(440 Hz, 100 ms), (0 Hz, 50 ms)]\<close> on its last step: with looping, the poll
  in \<open>ADVANCE_STEP\<close> wraps the index to 0 and goes to \<open>START_STEP\<close>; without looping,
  the player reaches \<open>PLAYING_STEP\<close> on the last step by five polls after \<open>play\<close>, and
  three more polls once the 50 ms have elapsed leave it in \<open>IDLE\<close> with one more \<open>stop()\<close>.
\<close>

theorem end_of_melody_witness:
  "update 7 8
      \<lparr>hwBackend = [Start 440, Stop],
       melody = Some \<lparr>steps = Some [\<lparr>freqHz = 440, durationMs = 100\<rparr>, \<lparr>freqHz = 0, durationMs = 50\<rparr>], count = 2\<rparr>,
       melodyStepIdx = 1, looping = True,
       stepDelay = \<lparr>delayTime = 50000, previousTime = 150004, disarm = False\<rparr>,
       state = ADVANCE_STEP\<rparr>
     = Inr \<lparr>hwBackend = [Start 440, Stop],
       melody = Some \<lparr>steps = Some [\<lparr>freqHz = 440, durationMs = 100\<rparr>, \<lparr>freqHz = 0, durationMs = 50\<rparr>], count = 2\<rparr>,
       melodyStepIdx = 0, looping = True,
       stepDelay = \<lparr>delayTime = 50000, previousTime = 150004, disarm = False\<rparr>,
       state = START_STEP\<rparr>
   \<and> update 7 8
      \<lparr>hwBackend = [Start 440, Stop],
       melody = Some \<lparr>steps = Some [\<lparr>freqHz = 440, durationMs = 100\<rparr>, \<lparr>freqHz = 0, durationMs = 50\<rparr>], count = 2\<rparr>,
       melodyStepIdx = 1, looping = False,
       stepDelay = \<lparr>delayTime = 50000, previousTime = 150004, disarm = False\<rparr>,
       state = ADVANCE_STEP\<rparr>
     = Inr \<lparr>hwBackend = [Start 440, Stop, Stop], melody = None, melodyStepIdx = 0, looping = False,
       stepDelay = \<lparr>delayTime = 50000, previousTime = 150004, disarm = True\<rparr>,
       state = IDLE\<rparr>
   \<and> player_run
       [Play \<lparr>steps = Some [\<lparr>freqHz = 440, durationMs = 100\<rparr>, \<lparr>freqHz = 0, durationMs = 50\<rparr>], count = 2\<rparr> False,
        Update 0 0, Update 10 10, Update 100000 100001, Update 100002 0, Update 100003 0]
       (BuzzerPlayer_new [] 0)
     = Inr \<lparr>hwBackend = [Start 440, Stop],
       melody = Some \<lparr>steps = Some [\<lparr>freqHz = 440, durationMs = 100\<rparr>, \<lparr>freqHz = 0, durationMs = 50\<rparr>], count = 2\<rparr>,
       melodyStepIdx = 1, looping = False,
       stepDelay = \<lparr>delayTime = 50000, previousTime = 100003, disarm = False\<rparr>,
       state = PLAYING_STEP\<rparr>
   \<and> player_run [Update 150003 150004, Update 150010 0, Update 150011 0]
      \<lparr>hwBackend = [Start 440, Stop],
       melody = Some \<lparr>steps = Some [\<lparr>freqHz = 440, durationMs = 100\<rparr>, \<lparr>freqHz = 0, durationMs = 50\<rparr>], count = 2\<rparr>,
       melodyStepIdx = 1, looping = False,
       stepDelay = \<lparr>delayTime = 50000, previousTime = 100003, disarm = False\<rparr>,
       state = PLAYING_STEP\<rparr>
     = Inr \<lparr>hwBackend = [Start 440, Stop, Stop], melody = None, melodyStepIdx = 0, looping = False,
       stepDelay = \<lparr>delayTime = 50000, previousTime = 150004, disarm = True\<rparr>,
       state = IDLE\<rparr>"
proof -
  let ?xs = "[\<lparr>freqHz = 440, durationMs = 100\<rparr>, \<lparr>freqHz = 0, durationMs = 50\<rparr>]"
  let ?m = "\<lparr>steps = Some ?xs, count = 2\<rparr>"
  let ?a = "\<lambda>loop. \<lparr>hwBackend = [Start 440, Stop], melody = Some ?m, melodyStepIdx = 1,
       looping = loop,
       stepDelay = \<lparr>delayTime = 50000, previousTime = 150004, disarm = False\<rparr>,
       state = ADVANCE_STEP\<rparr>"
  let ?p = "\<lparr>hwBackend = [Start 440, Stop], melody = Some ?m, melodyStepIdx = 1,
       looping = False,
       stepDelay = \<lparr>delayTime = 50000, previousTime = 100003, disarm = False\<rparr>,
       state = PLAYING_STEP\<rparr>"
  have 1: "update 7 8 (?a True) = Inr ((?a True)\<lparr>melodyStepIdx := 0, state := START_STEP\<rparr>)"
    using end_of_melody [where p = "?a True" and m = ?m and now = 7 and now' = 8] by simp
  have 2: "update 7 8 (?a False) =
      Inr ((?a False)\<lparr>hwBackend := hwBackend (?a False) @ [Stop], melody := None, looping := False,
            melodyStepIdx := 0, state := IDLE,
            stepDelay := stopDelay (stepDelay (?a False))\<rparr>)"
    using end_of_melody [where p = "?a False" and m = ?m and now = 7 and now' = 8] by simp
  have 3: "player_run [Play ?m False,
        Update 0 0, Update 10 10, Update 100000 100001, Update 100002 0, Update 100003 0]
       (BuzzerPlayer_new [] 0) = Inr ?p"
    by (simp add: BuzzerPlayer_new_def play_def isPlaying_def update_def getCurrentStep_def
          read_at_def and_then_def init_def init_keep_def Delay_new_def isDelayTimeElapsed_def
          restartTimer_def advanceToNextStep_def)
  have 4: "player_run (Update 150003 150004 # Update 150010 0
              # map (\<lambda>(u, u'). Update u u') [(150011, 0)]) ?p =
      Inr (?p\<lparr>hwBackend := hwBackend ?p @ [Stop], melody := None, looping := False,
            melodyStepIdx := 0, state := IDLE,
            stepDelay := stopDelay (restartTimer 150004 (stepDelay ?p))\<rparr>)"
    using end_of_melody [where p = ?p and m = ?m and xs = ?xs and now = 150003 and now' = 150004
        and t = 150010 and t' = 0 and us = "[(150011, 0)]"]
    by simp
  from 1 2 3 4 show ?thesis
    by (simp add: stopDelay_def restartTimer_def)
qed

lemma build_of_cleared_builder:
  "build (clearMelody True \<lparr>buffer = Some [\<lparr>freqHz = 440, durationMs = 100\<rparr>], capacity = 1,
                            len = 1, ctx = MelodyContext_default, ok = True\<rparr>)
     = \<lparr>steps = Some [\<lparr>freqHz = 440, durationMs = 100\<rparr>], count = 0\<rparr>"
  by (simp add: build_def clearMelody_def)

text \<open>
  Claim C8 fails on the code: \<open>START_STEP\<close> reads the step at index 0 without comparing the
  index with \<open>count\<close>, as \<open>advanceToNextStep\<close> does. With a melody of count 0 over a buffer
  whose slot 0 still holds an earlier step (what \<open>build()\<close> returns after
  \<open>clearMelody\<close>), \<open>play\<close> goes to \<open>START_STEP\<close> and the first poll starts that step at
  440 Hz, arms the timer and goes to \<open>PLAYING_STEP\<close>, not to \<open>IDLE\<close>; with no slot at
  all, or a null \<open>steps\<close> pointer, the read is outside the storage.
\<close>

theorem empty_melody_first_poll:
  "state (play \<lparr>steps = Some [\<lparr>freqHz = 440, durationMs = 100\<rparr>], count = 0\<rparr> False
            (BuzzerPlayer_new [] 0)) = START_STEP
   \<and> update 5 6 (play \<lparr>steps = Some [\<lparr>freqHz = 440, durationMs = 100\<rparr>], count = 0\<rparr> False
                   (BuzzerPlayer_new [] 0))
     = Inr \<lparr>hwBackend = [Start 440],
            melody = Some \<lparr>steps = Some [\<lparr>freqHz = 440, durationMs = 100\<rparr>], count = 0\<rparr>,
            melodyStepIdx = 0, looping = False,
            stepDelay = \<lparr>delayTime = 100000, previousTime = 5, disarm = False\<rparr>,
            state = PLAYING_STEP\<rparr>
   \<and> update 5 6 (play \<lparr>steps = Some [], count = 0\<rparr> False (BuzzerPlayer_new [] 0))
     = Inl (ReadOutOfBounds 0)
   \<and> update 5 6 (play \<lparr>steps = None, count = 0\<rparr> False (BuzzerPlayer_new [] 0))
     = Inl NullAccess"
  by (simp add: BuzzerPlayer_new_def play_def isPlaying_def update_def getCurrentStep_def
        read_at_def and_then_def init_def init_keep_def Delay_new_def)

section \<open>The melody reference while playing\<close>

lemma stop_state: "state (stop p) = IDLE" and stop_melody: "melody (stop p) = None"
  by (simp_all add: stop_def)

lemma play_state: "state (play m loop p) = START_STEP"
  and play_melody: "melody (play m loop p) = Some m"
  by (simp_all add: play_def Let_def)

lemma advanceToNextStep_melody:
  assumes "melody p = Some m"
  shows "state (advanceToNextStep p) = IDLE \<or> melody (advanceToNextStep p) = Some m"
  using assms by (simp add: advanceToNextStep_def Let_def stop_def)

lemma update_keeps_melody:
  assumes "state p \<noteq> IDLE \<longrightarrow> melody p \<noteq> None" and "update now now' p = Inr p'"
  shows "state p' \<noteq> IDLE \<longrightarrow> melody p' \<noteq> None"
proof (cases "state p")
  case IDLE
  with assms show ?thesis by (simp add: update_def)
next
  case START_STEP
  with assms(1) obtain m where m: "melody p = Some m" by auto
  from assms(2) START_STEP have "melody p' = melody p"
    by (auto simp add: update_def and_then_def Let_def split: sum.splits)
  with m show ?thesis by simp
next
  case PLAYING_STEP
  with assms(1) obtain m where m: "melody p = Some m" by auto
  from assms(2) PLAYING_STEP have "melody p' = melody p"
    by (auto simp add: update_def and_then_def Let_def split: sum.splits prod.splits if_splits)
  with m show ?thesis by simp
next
  case ADVANCE_STEP
  with assms(1) obtain m where m: "melody p = Some m" by auto
  from assms(2) ADVANCE_STEP have "p' = advanceToNextStep p" by (simp add: update_def)
  with advanceToNextStep_melody [OF m] show ?thesis by auto
qed

lemma player_step_keeps_melody:
  assumes "state p \<noteq> IDLE \<longrightarrow> melody p \<noteq> None" and "player_step c p = Inr p'"
  shows "state p' \<noteq> IDLE \<longrightarrow> melody p' \<noteq> None"
proof (cases c)
  case (Play m loop)
  with assms(2) show ?thesis by (auto simp add: play_melody)
next
  case StopCall
  with assms(2) show ?thesis by (auto simp add: stop_state)
next
  case (Update now now')
  with assms show ?thesis using update_keeps_melody [of p now now' p'] by simp
qed

lemma player_run_keeps_melody:
  "state p \<noteq> IDLE \<longrightarrow> melody p \<noteq> None \<Longrightarrow> player_run cs p = Inr p'
     \<Longrightarrow> state p' \<noteq> IDLE \<longrightarrow> melody p' \<noteq> None"
proof (induction cs arbitrary: p)
  case Nil
  then show ?case by simp
next
  case (Cons c cs)
  from Cons.prems(2) obtain q where q: "player_step c p = Inr q" "player_run cs q = Inr p'"
    by (auto simp add: and_then_def split: sum.splits)
  from player_step_keeps_melody [OF Cons.prems(1) q(1)] have "state q \<noteq> IDLE \<longrightarrow> melody q \<noteq> None" .
  from Cons.IH [OF this q(2)] show ?case .
qed

text \<open>
  Claim C10. In every state the player reaches from its constructor through calls of
  \<open>play\<close>, \<open>stop\<close> and \<open>update\<close>, a state other than \<open>IDLE\<close> has a melody set; so whenever
  \<open>isPlaying()\<close> holds, \<open>getCurrentStep\<close> reads through that melody and not through a
  cleared reference.
\<close>

theorem playing_has_melody:
  assumes "player_run cs (BuzzerPlayer_new hw now) = Inr p"
  shows "(state p \<noteq> IDLE \<longrightarrow> melody p \<noteq> None)
       \<and> (isPlaying p \<longrightarrow>
            (\<exists>m. melody p = Some m
              \<and> getCurrentStep p =
                  (case steps m of None \<Rightarrow> Inl NullAccess
                   | Some xs \<Rightarrow> read_at xs (melodyStepIdx p))))"
proof -
  have "state (BuzzerPlayer_new hw now) \<noteq> IDLE \<longrightarrow> melody (BuzzerPlayer_new hw now) \<noteq> None"
    by (simp add: BuzzerPlayer_new_def)
  from player_run_keeps_melody [OF this assms]
  have inv: "state p \<noteq> IDLE \<longrightarrow> melody p \<noteq> None" .
  then show ?thesis
    by (auto simp add: isPlaying_def getCurrentStep_def)
qed

text \<open>After \<open>play\<close> and one poll the player is in \<open>PLAYING_STEP\<close> with its melody set.\<close>

theorem playing_has_melody_witness:
  "player_run [Play \<lparr>steps = Some [\<lparr>freqHz = 440, durationMs = 100\<rparr>], count = 1\<rparr> False,
               Update 5 6] (BuzzerPlayer_new [] 0)
     = Inr \<lparr>hwBackend = [Start 440],
            melody = Some \<lparr>steps = Some [\<lparr>freqHz = 440, durationMs = 100\<rparr>], count = 1\<rparr>,
            melodyStepIdx = 0, looping = False,
            stepDelay = \<lparr>delayTime = 100000, previousTime = 5, disarm = False\<rparr>,
            state = PLAYING_STEP\<rparr>
   \<and> isPlaying \<lparr>hwBackend = [Start 440],
            melody = Some \<lparr>steps = Some [\<lparr>freqHz = 440, durationMs = 100\<rparr>], count = 1\<rparr>,
            melodyStepIdx = 0, looping = False,
            stepDelay = \<lparr>delayTime = 100000, previousTime = 5, disarm = False\<rparr>,
            state = PLAYING_STEP\<rparr>
   \<and> getCurrentStep \<lparr>hwBackend = [Start 440],
            melody = Some \<lparr>steps = Some [\<lparr>freqHz = 440, durationMs = 100\<rparr>], count = 1\<rparr>,
            melodyStepIdx = 0, looping = False,
            stepDelay = \<lparr>delayTime = 100000, previousTime = 5, disarm = False\<rparr>,
            state = PLAYING_STEP\<rparr>
       = Inr \<lparr>freqHz = 440, durationMs = 100\<rparr>"
proof -
  let ?p = "\<lparr>hwBackend = [Start 440],
            melody = Some \<lparr>steps = Some [\<lparr>freqHz = 440, durationMs = 100\<rparr>], count = 1\<rparr>,
            melodyStepIdx = 0, looping = False,
            stepDelay = \<lparr>delayTime = 100000, previousTime = 5, disarm = False\<rparr>,
            state = PLAYING_STEP\<rparr>"
  have run: "player_run [Play \<lparr>steps = Some [\<lparr>freqHz = 440, durationMs = 100\<rparr>], count = 1\<rparr> False,
               Update 5 6] (BuzzerPlayer_new [] 0) = Inr ?p"
    by (simp add: BuzzerPlayer_new_def play_def isPlaying_def update_def getCurrentStep_def
          read_at_def and_then_def init_def init_keep_def Delay_new_def)
  have playing: "isPlaying ?p" by (simp add: isPlaying_def)
  from playing_has_melody [OF run] playing
  have "getCurrentStep ?p = Inr \<lparr>freqHz = 440, durationMs = 100\<rparr>"
    by (simp add: read_at_def)
  with run playing show ?thesis by blast
qed

end
